theory Spec2Isabelle
  imports Complex_Main "HOL-Library.Char_ord" "HOL-Library.List_Lexorder" "HOL-Library.Sublist"
begin

section \<open>Python values and the operations the metric scripts use on them\<close>

text \<open>
  The five scripts under \<^verbatim>\<open>Metrics Calculation\<close> read a decomposition file with
  \<^verbatim>\<open>json.loads(path.read_text())\<close> and then walk the parsed value with dynamically typed
  lookups. The parsed value is modelled by \<open>json\<close>: Python's \<^verbatim>\<open>None\<close>, \<^verbatim>\<open>bool\<close>, numbers,
  \<^verbatim>\<open>str\<close>, \<^verbatim>\<open>list\<close> and \<^verbatim>\<open>dict\<close> (an association list in insertion order; the result
  of \<^verbatim>\<open>json.loads\<close> has pairwise distinct keys). Numbers (Python \<^verbatim>\<open>int\<close> and \<^verbatim>\<open>float\<close>)
  are idealised as reals, and a \<open>char\<close> stands for one character of a \<^verbatim>\<open>str\<close>.
  Every exception the scripts can meet is a value of \<open>py_error\<close>; a computation that may
  raise returns \<open>py_error + 'a\<close> with \<open>Inl\<close> the exception.
\<close>

datatype json =
    JNull
  | JBool bool
  | JNum real
  | JStr string
  | JArr "json list"
  | JObj "(string \<times> json) list"

datatype py_error =
    OSError
  | JSONDecodeError
  | KeyError
  | TypeError
  | AttributeError
  | ValueError
  | ZeroDivisionError
  | StatisticsError
  | OverflowError
  | RecursionError

text \<open>What \<^verbatim>\<open>path.read_text()\<close> followed by \<^verbatim>\<open>json.loads\<close> meets: a file that cannot be
  read, a text that is not JSON, or a text that parses to a value.\<close>

datatype json_file = Unreadable | NotJSON | Parsed json

definition py_bind :: "py_error + 'a \<Rightarrow> ('a \<Rightarrow> py_error + 'b) \<Rightarrow> py_error + 'b" where
  "py_bind m f = (case m of Inl e \<Rightarrow> Inl e | Inr x \<Rightarrow> f x)"

definition read_json :: "json_file \<Rightarrow> py_error + json" where
  "read_json f = (case f of Unreadable \<Rightarrow> Inl OSError | NotJSON \<Rightarrow> Inl JSONDecodeError | Parsed j \<Rightarrow> Inr j)"

text \<open>\<^verbatim>\<open>x[k]\<close> for a string key \<open>k\<close>: only a dict supports it.\<close>

fun subscript :: "json \<Rightarrow> string \<Rightarrow> py_error + json" where
  "subscript (JObj kvs) k = (case map_of kvs k of None \<Rightarrow> Inl KeyError | Some v \<Rightarrow> Inr v)"
| "subscript _ k = Inl TypeError"

text \<open>\<^verbatim>\<open>x.get(k, default)\<close>: an attribute of dicts only.\<close>

fun py_get :: "json \<Rightarrow> string \<Rightarrow> json \<Rightarrow> py_error + json" where
  "py_get (JObj kvs) k dflt = Inr (case map_of kvs k of None \<Rightarrow> dflt | Some v \<Rightarrow> v)"
| "py_get _ k dflt = Inl AttributeError"

fun py_items :: "json \<Rightarrow> py_error + (string \<times> json) list" where
  "py_items (JObj kvs) = Inr kvs"
| "py_items _ = Inl AttributeError"

definition py_keys :: "json \<Rightarrow> py_error + string list" where
  "py_keys x = py_bind (py_items x) (\<lambda>kvs. Inr (map fst kvs))"

definition py_values :: "json \<Rightarrow> py_error + json list" where
  "py_values x = py_bind (py_items x) (\<lambda>kvs. Inr (map snd kvs))"

text \<open>\<^verbatim>\<open>for n in x\<close>: a list yields its elements, a dict its keys, a str its characters.\<close>

fun py_iter :: "json \<Rightarrow> py_error + json list" where
  "py_iter (JArr xs) = Inr xs"
| "py_iter (JObj kvs) = Inr (map (\<lambda>kv. JStr (fst kv)) kvs)"
| "py_iter (JStr s) = Inr (map (\<lambda>c. JStr [c]) s)"
| "py_iter _ = Inl TypeError"

fun py_len :: "json \<Rightarrow> py_error + nat" where
  "py_len (JArr xs) = Inr (length xs)"
| "py_len (JObj kvs) = Inr (length kvs)"
| "py_len (JStr s) = Inr (length s)"
| "py_len _ = Inl TypeError"

fun is_dict :: "json \<Rightarrow> bool" where
  "is_dict (JObj kvs) = True"
| "is_dict _ = False"

text \<open>Keys of the node-to-partition dict. A list or a dict is unhashable; \<^verbatim>\<open>True\<close> and
  \<^verbatim>\<open>False\<close> hash and compare like 1 and 0.\<close>

datatype py_key = KNone | KNum real | KStr string

fun py_hash :: "json \<Rightarrow> py_error + py_key" where
  "py_hash JNull = Inr KNone"
| "py_hash (JBool b) = Inr (KNum (if b then 1 else 0))"
| "py_hash (JNum r) = Inr (KNum r)"
| "py_hash (JStr s) = Inr (KStr s)"
| "py_hash _ = Inl TypeError"

text \<open>\<^verbatim>\<open>float(x)\<close>. A float is returned as it is and an \<^verbatim>\<open>int\<close> is converted. The
  conversion of an \<^verbatim>\<open>int\<close> rounds to the nearest float and raises \<^verbatim>\<open>OverflowError\<close> when
  the magnitude is \<open>2 ^ 1024 - 2 ^ 970\<close> or more; every finite float is smaller than that
  (the largest is \<open>2 ^ 1024 - 2 ^ 971\<close>), so that a number of that size is an \<^verbatim>\<open>int\<close>. The
  non-finite floats, which \<^verbatim>\<open>json.loads\<close> gives for the literals \<^verbatim>\<open>NaN\<close> and
  \<^verbatim>\<open>Infinity\<close> and for a decimal fraction beyond the float range, are not values of the
  model. For a str argument Python parses a decimal literal; that parser is not code of
  this repository and is taken as the parameter \<open>parse_float\<close> (\<open>None\<close> where Python
  raises \<^verbatim>\<open>ValueError\<close>).\<close>

definition float_limit :: real where
  "float_limit = 2 ^ 1024 - 2 ^ 970"

fun py_float :: "(string \<Rightarrow> real option) \<Rightarrow> json \<Rightarrow> py_error + real" where
  "py_float parse_float (JNum r) = (if \<bar>r\<bar> < float_limit then Inr r else Inl OverflowError)"
| "py_float parse_float (JBool b) = Inr (if b then 1 else 0)"
| "py_float parse_float (JStr s) = (case parse_float s of None \<Rightarrow> Inl ValueError | Some r \<Rightarrow> Inr r)"
| "py_float parse_float _ = Inl TypeError"

text \<open>\<^verbatim>\<open>statistics.median\<close>: sort, then the middle element, or the mean of the two
  middle elements when the length is even; no median of empty data.\<close>

definition median :: "real list \<Rightarrow> py_error + real" where
  "median data =
     (let s = sort data; n = length s in
      if n = 0 then Inl StatisticsError
      else if n mod 2 = 1 then Inr (s ! (n div 2))
      else Inr ((s ! (n div 2 - 1) + s ! (n div 2)) / 2))"

fun py_min :: "real list \<Rightarrow> py_error + real" where
  "py_min [] = Inl ValueError"
| "py_min (x # xs) = Inr (fold min xs x)"

fun py_max :: "real list \<Rightarrow> py_error + real" where
  "py_max [] = Inl ValueError"
| "py_max (x # xs) = Inr (fold max xs x)"

definition LAYER_KEY :: string where
  "LAYER_KEY = ''1_structural_static''"

definition L3 :: string where
  "L3 = ''3_business_use_cases''"

section \<open>smad.py\<close>

record smad_result =
  services :: nat
  MAD_raw :: real
  medSize :: real
  min_size :: real
  max_size :: real
  SMAD :: real

text \<open>\<^verbatim>\<open>smad = 1 - mad_raw / (mad_raw + 7)\<close> (analyze_file) and
  \<^verbatim>\<open>dccmd = 1 - (mad_raw / (mad_raw + 2))\<close> (main of dccmd.py). Both are applied to a
  median of absolute values, which is never negative (see \<open>median_abs_nonneg\<close>), so the
  divisor is never zero.\<close>

definition smad_score :: "real \<Rightarrow> real" where
  "smad_score mad_raw = 1 - mad_raw / (mad_raw + 7)"

definition dccmd_score :: "real \<Rightarrow> real" where
  "dccmd_score mad_raw = 1 - (mad_raw / (mad_raw + 2))"

fun map_len :: "json list \<Rightarrow> py_error + real list" where
  "map_len [] = Inr []"
| "map_len (nodes # rest) =
     py_bind (py_len nodes) (\<lambda>n. py_bind (map_len rest) (\<lambda>ns. Inr (real n # ns)))"

text \<open>The \<^verbatim>\<open>try\<close> block of \<open>analyze_file\<close>: \<open>Inr None\<close> is an early \<^verbatim>\<open>return None\<close>,
  \<open>Inr (Some sizes)\<close> leaves the block normally.\<close>

definition analyze_try :: "json_file \<Rightarrow> py_error + real list option" where
  "analyze_try jfile =
     py_bind (read_json jfile) (\<lambda>data.
     py_bind (subscript data LAYER_KEY) (\<lambda>layer.
     py_bind (py_get layer ''decomposition'' (JObj [])) (\<lambda>decomp.
     if \<not> is_dict decomp then Inr None
     else py_bind (py_values decomp) (\<lambda>vs.
          py_bind (map_len vs) (\<lambda>sizes.
          if sizes = [] then Inr None else Inr (Some sizes))))))"

definition analyze_file :: "json_file \<Rightarrow> py_error + smad_result option" where
  "analyze_file jfile =
     (case analyze_try jfile of
        Inl e \<Rightarrow> if e \<in> {JSONDecodeError, KeyError, TypeError} then Inr None else Inl e
      | Inr None \<Rightarrow> Inr None
      | Inr (Some sizes) \<Rightarrow>
          py_bind (median sizes) (\<lambda>med_size.
          py_bind (median (map (\<lambda>sz. \<bar>sz - med_size\<bar>) sizes)) (\<lambda>mad_raw.
          py_bind (py_min sizes) (\<lambda>mn.
          py_bind (py_max sizes) (\<lambda>mx.
          Inr (Some \<lparr>services = length sizes, MAD_raw = mad_raw, medSize = med_size,
                     min_size = mn, max_size = mx, SMAD = smad_score mad_raw\<rparr>))))))"

section \<open>Loops and dicts shared by the scripts\<close>

text \<open>
  A Python \<^verbatim>\<open>for\<close> loop over a list that updates local state and may raise: the body
  maps an element and the state to the next state or to an exception, which ends the loop.
\<close>

fun for_loop :: "'a list \<Rightarrow> 's \<Rightarrow> ('a \<Rightarrow> 's \<Rightarrow> py_error + 's) \<Rightarrow> py_error + 's" where
  "for_loop [] s body = Inr s"
| "for_loop (x # xs) s body = (case body x s of Inl e \<Rightarrow> Inl e | Inr s' \<Rightarrow> for_loop xs s' body)"

text \<open>The comprehension \<^verbatim>\<open>{n["id"]: p for p, lst in decomp.items() for n in lst}\<close>, which
  every script but smad.py builds (as \<open>node2part\<close>, \<open>svc_of\<close> or \<open>cls2svc\<close>): a later
  entry for the same id replaces an earlier one.\<close>

definition node2part_nodes :: "string \<Rightarrow> json list \<Rightarrow> (py_key \<rightharpoonup> string) \<Rightarrow> py_error + (py_key \<rightharpoonup> string)" where
  "node2part_nodes p ns m =
     for_loop ns m (\<lambda>n m.
       py_bind (subscript n ''id'') (\<lambda>i.
       py_bind (py_hash i) (\<lambda>k. Inr (m(k \<mapsto> p)))))"

definition node2part :: "json \<Rightarrow> py_error + (py_key \<rightharpoonup> string)" where
  "node2part decomp =
     py_bind (py_items decomp) (\<lambda>items.
     for_loop items Map.empty (\<lambda>pl m.
       py_bind (py_iter (snd pl)) (\<lambda>ns. node2part_nodes (fst pl) ns m)))"

text \<open>\<^verbatim>\<open>node2part.get(x)\<close>: the key is hashed first.\<close>

definition dict_get :: "(py_key \<rightharpoonup> string) \<Rightarrow> json \<Rightarrow> py_error + string option" where
  "dict_get m x = py_bind (py_hash x) (\<lambda>k. Inr (m k))"

text \<open>
  A dict from partition to a set of partitions (\<open>dep_out\<close> of cyclic_independence.py,
  \<open>adj\<close> of dccmd.py). A set is kept as a duplicate-free list; the order in which Python
  iterates a set changes neither a membership test nor a maximum.
  \<^verbatim>\<open>d[k]\<close> raises \<^verbatim>\<open>KeyError\<close> for a key that is absent.
\<close>

type_synonym adjacency = "(string \<times> string list) list"

definition set_add :: "string list \<Rightarrow> string \<Rightarrow> string list" where
  "set_add xs x = (if x \<in> set xs then xs else xs @ [x])"

definition adj_add :: "adjacency \<Rightarrow> string \<Rightarrow> string \<Rightarrow> py_error + adjacency" where
  "adj_add adj s t =
     (case map_of adj s of
        None \<Rightarrow> Inl KeyError
      | Some vs \<Rightarrow> Inr (map (\<lambda>kv. if fst kv = s then (fst kv, set_add (snd kv) t) else kv) adj))"

definition adj_has :: "adjacency \<Rightarrow> string \<Rightarrow> string \<Rightarrow> py_error + bool" where
  "adj_has adj p q = (case map_of adj p of None \<Rightarrow> Inl KeyError | Some vs \<Rightarrow> Inr (q \<in> set vs))"

text \<open>Truth value of the result of \<^verbatim>\<open>svc_of.get(x)\<close>: \<^verbatim>\<open>None\<close> and the empty string
  are false.\<close>

fun truthy :: "string option \<Rightarrow> bool" where
  "truthy None = False"
| "truthy (Some s) = (s \<noteq> [])"

section \<open>cyclic_independence.py\<close>

record cid_result =
  partitions :: nat
  cyclic_pairs :: nat
  total_pairs :: nat
  CiD :: real

text \<open>\<^verbatim>\<open>itertools.combinations(parts, 2)\<close>.\<close>

fun combinations :: "'a list \<Rightarrow> ('a \<times> 'a) list" where
  "combinations [] = []"
| "combinations (x # xs) = map (Pair x) xs @ combinations xs"

text \<open>The body of the loop over \<open>links\<close>.\<close>

definition cid_edge :: "(py_key \<rightharpoonup> string) \<Rightarrow> json \<Rightarrow> adjacency \<Rightarrow> py_error + adjacency" where
  "cid_edge n2p e dep_out =
     py_bind (py_get e ''source'' JNull) (\<lambda>src.
     py_bind (py_get e ''target'' JNull) (\<lambda>dst.
     py_bind (dict_get n2p src) (\<lambda>p_src.
     py_bind (dict_get n2p dst) (\<lambda>p_dst.
     case (p_src, p_dst) of
       (Some ps, Some pd) \<Rightarrow> if ps = pd then Inr dep_out else adj_add dep_out ps pd
     | _ \<Rightarrow> Inr dep_out))))"

text \<open>\<^verbatim>\<open>sum(1 for p, q in combinations(parts, 2) if q in dep_out[p] and p in dep_out[q])\<close>.\<close>

definition count_cyclic :: "adjacency \<Rightarrow> (string \<times> string) list \<Rightarrow> py_error + nat" where
  "count_cyclic dep_out pairs =
     for_loop pairs 0 (\<lambda>pq c.
       py_bind (adj_has dep_out (fst pq) (snd pq)) (\<lambda>a.
       if a then py_bind (adj_has dep_out (snd pq) (fst pq)) (\<lambda>b. Inr (if b then c + 1 else c))
       else Inr c))"

definition cid_for_file :: "json_file \<Rightarrow> py_error + cid_result option" where
  "cid_for_file jpath =
     (case py_bind (read_json jpath) (\<lambda>data. subscript data LAYER_KEY) of
        Inl e \<Rightarrow> if e \<in> {JSONDecodeError, KeyError} then Inr None else Inl e
      | Inr layer \<Rightarrow>
          py_bind (py_get layer ''decomposition'' (JObj [])) (\<lambda>decomp.
          py_bind (py_get layer ''links'' (JArr [])) (\<lambda>links.
          py_bind (py_keys decomp) (\<lambda>ks.
          let parts = sort ks; n = length parts; total = n * (n - 1) div 2 in
          if n \<le> 1
          then Inr (Some \<lparr>partitions = n, cyclic_pairs = 0, total_pairs = total, CiD = 1\<rparr>)
          else
            py_bind (node2part decomp) (\<lambda>n2p.
            py_bind (py_iter links) (\<lambda>es.
            py_bind (for_loop es (map (\<lambda>p. (p, [])) parts) (cid_edge n2p)) (\<lambda>dep_out.
            py_bind (count_cyclic dep_out (combinations parts)) (\<lambda>cyclic.
            Inr (Some \<lparr>partitions = n, cyclic_pairs = cyclic, total_pairs = total,
                       CiD = (if total > 0 then 1 - real cyclic / real total else 1)\<rparr>)))))))))"

section \<open>service_coupling_factor.py\<close>

text \<open>The script returns \<open>SCF\<close> formatted with four decimals; the record holds the number
  \<open>scf\<close> that is formatted.\<close>

record scf_result =
  svc_count :: nat
  external_edges :: nat
  SCF :: real

definition scf_edge :: "(py_key \<rightharpoonup> string) \<Rightarrow> json \<Rightarrow> nat \<Rightarrow> py_error + nat" where
  "scf_edge svc_of e ext_edges =
     py_bind (py_get e ''source'' JNull) (\<lambda>src.
     py_bind (py_get e ''target'' JNull) (\<lambda>dst.
     py_bind (dict_get svc_of src) (\<lambda>s_src.
     py_bind (dict_get svc_of dst) (\<lambda>s_dst.
     if truthy s_src \<and> truthy s_dst \<and> s_src \<noteq> s_dst then Inr (ext_edges + 1)
     else Inr ext_edges))))"

definition scf_for_file :: "json_file \<Rightarrow> py_error + scf_result option" where
  "scf_for_file jpath =
     (case py_bind (read_json jpath) (\<lambda>data. subscript data LAYER_KEY) of
        Inl e \<Rightarrow> if e \<in> {JSONDecodeError, KeyError, TypeError} then Inr None else Inl e
      | Inr block \<Rightarrow>
          py_bind (py_get block ''decomposition'' (JObj [])) (\<lambda>decomp.
          py_bind (py_get block ''links'' (JArr [])) (\<lambda>links.
          py_bind (py_keys decomp) (\<lambda>ks.
          py_bind (node2part decomp) (\<lambda>svc_of.
          py_bind (py_iter links) (\<lambda>es.
          py_bind (for_loop es 0 (scf_edge svc_of)) (\<lambda>ext_edges.
          let n = length (sort ks); denom = ext_edges + n in
          Inr (Some \<lparr>svc_count = n, external_edges = ext_edges,
                     SCF = (if denom = 0 then 0 else sqrt (real n / real denom))\<rparr>))))))))"

section \<open>code_modularity.py\<close>

text \<open>The three \<^verbatim>\<open>defaultdict\<close>s: a missing key reads as 0, which is also the default
  that \<^verbatim>\<open>.get(p, 0)\<close> gives.\<close>

record cmod_state =
  internal :: "string \<Rightarrow> nat"
  outgoing :: "string \<Rightarrow> real"
  incoming :: "string \<Rightarrow> real"

definition cmod_edge ::
  "(string \<Rightarrow> real option) \<Rightarrow> (py_key \<rightharpoonup> string) \<Rightarrow> json \<Rightarrow> cmod_state \<Rightarrow> py_error + cmod_state" where
  "cmod_edge parse_float n2p e st =
     py_bind (py_get e ''source'' JNull) (\<lambda>src.
     py_bind (py_get e ''target'' JNull) (\<lambda>dst.
     if src = JNull \<or> dst = JNull then Inr st
     else
       py_bind (dict_get n2p src) (\<lambda>p_src.
       py_bind (dict_get n2p dst) (\<lambda>p_dst.
       case (p_src, p_dst) of
         (Some ps, Some pd) \<Rightarrow>
           py_bind (py_get e ''weight'' (JNum 1)) (\<lambda>wv.
           py_bind (py_float parse_float wv) (\<lambda>w.
           if ps = pd then Inr (st\<lparr>internal := (internal st)(ps := internal st ps + 1)\<rparr>)
           else Inr (st\<lparr>outgoing := (outgoing st)(ps := outgoing st ps + w),
                         incoming := (incoming st)(pd := incoming st pd + w)\<rparr>)))
       | _ \<Rightarrow> Inr st))))"

text \<open>The cluster factor of one partition: \<open>None\<close> for a partition that is ignored.\<close>

definition cluster_factor :: "cmod_state \<Rightarrow> string \<Rightarrow> py_error + real option" where
  "cluster_factor st p =
     (let intra = internal st p; ext_w = outgoing st p + incoming st p in
      if ext_w = 0 \<and> intra = 0 then Inr None
      else if ext_w = 0 then Inr (Some 1)
      else if 2 * real intra + ext_w = 0 then Inl ZeroDivisionError
      else Inr (Some ((2 * real intra) / (2 * real intra + ext_w))))"

definition cmod_for_file :: "(string \<Rightarrow> real option) \<Rightarrow> json_file \<Rightarrow> py_error + real option" where
  "cmod_for_file parse_float jpath =
     (case py_bind (read_json jpath) (\<lambda>data. subscript data LAYER_KEY) of
        Inl e \<Rightarrow> if e \<in> {JSONDecodeError, KeyError, TypeError} then Inr None else Inl e
      | Inr layer \<Rightarrow>
          py_bind (py_get layer ''decomposition'' (JObj [])) (\<lambda>decomp.
          py_bind (py_get layer ''links'' (JArr [])) (\<lambda>links.
          py_bind (node2part decomp) (\<lambda>n2p.
          py_bind (py_iter links) (\<lambda>es.
          py_bind (for_loop es \<lparr>internal = (\<lambda>p. 0), outgoing = (\<lambda>p. 0), incoming = (\<lambda>p. 0)\<rparr>
                     (cmod_edge parse_float n2p)) (\<lambda>st.
          py_bind (py_keys decomp) (\<lambda>ks.
          py_bind (for_loop ks [] (\<lambda>p cf_vals.
                     py_bind (cluster_factor st p) (\<lambda>cf.
                     case cf of None \<Rightarrow> Inr cf_vals | Some c \<Rightarrow> Inr (cf_vals @ [c])))) (\<lambda>cf_vals.
          if cf_vals = [] then Inr None
          else Inr (Some (sum_list cf_vals / real (length cf_vals)))))))))))"

section \<open>dccmd.py\<close>

text \<open>The recursion of \<open>dfs\<close> goes through the loop: the body of a loop is applied to the
  elements of the list only, which is what the definition of \<open>dfs\<close> needs to know about
  \<open>for_loop\<close>.\<close>

lemma for_loop_cong [fundef_cong]:
  "xs = ys \<Longrightarrow> s = t \<Longrightarrow> (\<And>x r. x \<in> set ys \<Longrightarrow> f x r = g x r) \<Longrightarrow> for_loop xs s f = for_loop ys t g"
proof (induction xs arbitrary: ys s t)
  case Nil
  then show ?case by simp
next
  case (Cons x xs)
  then obtain ys' where ys: "ys = x # ys'" "xs = ys'" by auto
  have "f x s = g x t" using Cons.prems ys by simp
  moreover have "\<And>r. for_loop xs r f = for_loop ys' r g"
    using Cons.IH [OF ys(2) refl] Cons.prems(3) ys by simp
  ultimately show ?case using ys by (simp split: sum.splits)
qed

text \<open>
  \<open>dfs\<close> is the inner function of \<open>longest_path\<close>; \<open>seen | {nxt}\<close> is the union of
  frozensets. The function calls itself once for every hop of the path it follows, and
  Python raises \<^verbatim>\<open>RecursionError\<close> when calls are nested deeper than the interpreter's
  recursion limit, which dccmd.py never changes. How many nested calls of \<open>dfs\<close> fit
  below that limit when \<open>longest_path\<close> is called is not code of this repository and is
  the parameter \<open>limit\<close> (about 498 for CPython's default limit of 1000): a call for
  which no room is left raises, and the exception leaves every enclosing call.

  \<^verbatim>\<open>lru_cache\<close> stores results of this pure function. Within one call of
  \<open>longest_path\<close> the arguments \<open>(node, seen)\<close> only occur at nesting depth
  \<open>|seen| - 1\<close>, and a result is stored only when the call has returned, so that a stored
  result is the one the call would compute again; the cache is not modelled.

  Apart from the limit, the recursion ends because every call adds a service to \<open>seen\<close>
  that is a target of the adjacency dict and was not in \<open>seen\<close> before:
  \<open>targets adj - seen\<close> shrinks.
\<close>

definition targets :: "adjacency \<Rightarrow> string set" where
  "targets adj = (\<Union>kv \<in> set adj. set (snd kv))"

function dfs :: "nat \<Rightarrow> adjacency \<Rightarrow> string \<Rightarrow> string set \<Rightarrow> py_error + nat" where
  "dfs limit adj node seen =
     (if limit = 0 then Inl RecursionError
      else
        (case map_of adj node of
           None \<Rightarrow> Inl KeyError
         | Some nxts \<Rightarrow>
             for_loop nxts 0 (\<lambda>nxt best.
               if nxt \<notin> seen
               then (case dfs (limit - 1) adj nxt (seen \<union> {nxt}) of
                       Inl e \<Rightarrow> Inl e
                     | Inr d \<Rightarrow> Inr (max best (1 + d)))
               else Inr best)))"
  by pat_completeness auto

lemma finite_targets: "finite (targets adj)"
  by (simp add: targets_def)

lemma map_of_targets: "map_of adj node = Some nxts \<Longrightarrow> set nxts \<subseteq> targets adj"
  by (auto simp: targets_def dest: map_of_SomeD)

termination dfs
proof (relation "measure (\<lambda>(limit, adj, node, seen). card (targets adj - seen))")
  show "wf (measure (\<lambda>(limit, adj, node, seen). card (targets adj - seen)))" by simp
next
  fix limit :: nat and adj :: adjacency and node :: string and seen :: "string set"
    and nxts nxt and best :: nat
  assume "limit \<noteq> 0" "map_of adj node = Some nxts" "nxt \<in> set nxts" "nxt \<notin> seen"
  then have mem: "nxt \<in> targets adj - seen" using map_of_targets by blast
  have fin: "finite (targets adj - seen)" by (simp add: finite_targets)
  have eq: "targets adj - (seen \<union> {nxt}) = (targets adj - seen) - {nxt}" by blast
  have "card (targets adj - (seen \<union> {nxt})) < card (targets adj - seen)"
    unfolding eq by (rule card_Diff1_less [OF fin mem])
  then show "((limit - 1, adj, nxt, seen \<union> {nxt}), (limit, adj, node, seen))
      \<in> measure (\<lambda>(limit, adj, node, seen). card (targets adj - seen))" by simp
qed

declare dfs.simps [simp del]

definition longest_path :: "nat \<Rightarrow> string \<Rightarrow> adjacency \<Rightarrow> py_error + nat" where
  "longest_path limit start adj = dfs limit adj start {start}"

text \<open>
  \<^verbatim>\<open>str.upper()\<close> is Python's own and not code of this repository: the functions below
  take it as the parameter \<open>upper\<close>. It is not a map of single characters (the upper case
  of the sharp s is \<^verbatim>\<open>SS\<close>). On a str of ASCII characters it maps the letters a to z and
  keeps every other character, which is \<open>ascii_upper\<close>; the evaluations on documents
  with ASCII labels pass \<open>ascii_upper\<close> for it. \<open>py_in\<close> is the substring test
  \<^verbatim>\<open>x in s\<close>.
\<close>

definition upper_char :: "char \<Rightarrow> char" where
  "upper_char c =
     (case map_of (zip ''abcdefghijklmnopqrstuvwxyz'' ''ABCDEFGHIJKLMNOPQRSTUVWXYZ'') c of
        None \<Rightarrow> c | Some u \<Rightarrow> u)"

definition ascii_upper :: "string \<Rightarrow> string" where
  "ascii_upper s = map upper_char s"

fun py_in :: "string \<Rightarrow> string \<Rightarrow> bool" where
  "py_in x [] = (x = [])"
| "py_in x (c # s) = (prefix x (c # s) \<or> py_in x s)"

text \<open>\<open>story2svcs\<close>, a \<^verbatim>\<open>defaultdict(set)\<close> in insertion order: \<^verbatim>\<open>story2svcs[story].add(svc)\<close>
  creates the entry when the story is new.\<close>

definition story_add :: "adjacency \<Rightarrow> string \<Rightarrow> string \<Rightarrow> adjacency" where
  "story_add m story svc =
     (case map_of m story of
        None \<Rightarrow> m @ [(story, [svc])]
      | Some vs \<Rightarrow> map (\<lambda>kv. if fst kv = story then (fst kv, set_add (snd kv) svc) else kv) m)"

text \<open>The body of the loop over the structural links: \<^verbatim>\<open>if s_src and s_dst and s_src != s_dst\<close>
  tests the truth value of the two services, so that \<^verbatim>\<open>None\<close> and the empty string fail it.\<close>

definition dccmd_edge :: "(py_key \<rightharpoonup> string) \<Rightarrow> json \<Rightarrow> adjacency \<Rightarrow> py_error + adjacency" where
  "dccmd_edge cls2svc e adj =
     py_bind (py_get e ''source'' JNull) (\<lambda>src.
     py_bind (dict_get cls2svc src) (\<lambda>s_src.
     py_bind (py_get e ''target'' JNull) (\<lambda>dst.
     py_bind (dict_get cls2svc dst) (\<lambda>s_dst.
     if truthy s_src \<and> truthy s_dst \<and> s_src \<noteq> s_dst
     then adj_add adj (the s_src) (the s_dst)
     else Inr adj))))"

text \<open>The body of the loop over the business links.\<close>

definition story_edge ::
  "(string \<Rightarrow> string) \<Rightarrow> (py_key \<rightharpoonup> string) \<Rightarrow> json \<Rightarrow> adjacency \<Rightarrow> py_error + adjacency" where
  "story_edge upper cls2svc e story2svcs =
     py_bind (py_get e ''source'' (JStr [])) (\<lambda>story.
     case story of
       JStr st \<Rightarrow>
         if py_in ''USE CASE'' (upper st)
         then py_bind (py_get e ''target'' JNull) (\<lambda>tgt.
              py_bind (dict_get cls2svc tgt) (\<lambda>svc.
              if truthy svc then Inr (story_add story2svcs st (the svc)) else Inr story2svcs))
         else Inr story2svcs
     | _ \<Rightarrow> Inr story2svcs)"

text \<open>The depth of one story: the loop over the services it touches.\<close>

definition story_depth :: "nat \<Rightarrow> adjacency \<Rightarrow> string list \<Rightarrow> py_error + nat" where
  "story_depth limit adj svcs =
     for_loop svcs 0 (\<lambda>s best. py_bind (longest_path limit s adj) (\<lambda>d. Inr (max best d)))"

definition depths_for_file ::
  "(string \<Rightarrow> string) \<Rightarrow> nat \<Rightarrow> json_file \<Rightarrow> py_error + (nat list option \<times> nat option)" where
  "depths_for_file upper limit jf =
     (case py_bind (read_json jf) (\<lambda>data.
           py_bind (subscript data LAYER_KEY) (\<lambda>struct.
           py_bind (subscript data L3) (\<lambda>bus. Inr (struct, bus)))) of
        Inl e \<Rightarrow> if e \<in> {JSONDecodeError, KeyError} then Inr (None, None) else Inl e
      | Inr (struct, bus) \<Rightarrow>
          py_bind (subscript struct ''decomposition'') (\<lambda>decomp.
          py_bind (node2part decomp) (\<lambda>cls2svc.
          py_bind (py_keys decomp) (\<lambda>ks.
          py_bind (py_get struct ''links'' (JArr [])) (\<lambda>links.
          py_bind (py_iter links) (\<lambda>es.
          py_bind (for_loop es (map (\<lambda>s. (s, [])) (sort ks)) (dccmd_edge cls2svc)) (\<lambda>adj.
          py_bind (py_get bus ''links'' (JArr [])) (\<lambda>blinks.
          py_bind (py_iter blinks) (\<lambda>bes.
          py_bind (for_loop bes [] (story_edge upper cls2svc)) (\<lambda>story2svcs.
          if story2svcs = [] then Inr (None, Some (length (sort ks)))
          else
            py_bind (for_loop (map snd story2svcs) [] (\<lambda>svcs depths.
                       py_bind (story_depth limit adj svcs) (\<lambda>best. Inr (depths @ [best])))) (\<lambda>depths.
            Inr (Some depths, Some (length (sort ks))))))))))))))"

text \<open>The body of the loop of \<open>main\<close> for one file: the \<open>DCCMD\<close> column, \<open>None\<close> for the
  row of \<^verbatim>\<open>NA\<close>.\<close>

definition main_dccmd :: "(string \<Rightarrow> string) \<Rightarrow> nat \<Rightarrow> json_file \<Rightarrow> py_error + real option" where
  "main_dccmd upper limit jf =
     py_bind (depths_for_file upper limit jf) (\<lambda>r.
     case fst r of
       None \<Rightarrow> Inr None
     | Some depths \<Rightarrow>
         if depths = [] then Inr None
         else
           py_bind (median (map real depths)) (\<lambda>med.
           py_bind (median (map (\<lambda>d. \<bar>real d - med\<bar>) depths)) (\<lambda>mad_raw.
           Inr (Some (dccmd_score mad_raw)))))"

section \<open>Well-formed documents\<close>

text \<open>
  A well-formed document has the shape the scripts expect: a structural layer with a
  \<^verbatim>\<open>decomposition\<close> object (partition key to a list of node descriptors, each with an
  \<^verbatim>\<open>id\<close>) and a list of \<^verbatim>\<open>links\<close> (source, target, optional numeric weight), and a
  business layer with a list of \<^verbatim>\<open>links\<close> from story labels to nodes. \<open>encode\<close> gives
  the parsed JSON value of such a document.
\<close>

record edge =
  source :: string
  target :: string
  weight :: "real option"

record document =
  decomposition :: "(string \<times> string list) list"
  links :: "edge list"
  use_cases :: "(string \<times> string) list"

definition encode_node :: "string \<Rightarrow> json" where
  "encode_node i = JObj [(''id'', JStr i)]"

definition encode_edge :: "edge \<Rightarrow> json" where
  "encode_edge e =
     JObj ([(''source'', JStr (source e)), (''target'', JStr (target e))] @
           (case weight e of None \<Rightarrow> [] | Some w \<Rightarrow> [(''weight'', JNum w)]))"

definition encode_story :: "string \<times> string \<Rightarrow> json" where
  "encode_story st = JObj [(''source'', JStr (fst st)), (''target'', JStr (snd st))]"

definition encode_decomp :: "(string \<times> string list) list \<Rightarrow> json" where
  "encode_decomp dec = JObj (map (\<lambda>pn. (fst pn, JArr (map encode_node (snd pn)))) dec)"

definition encode :: "document \<Rightarrow> json" where
  "encode d =
     JObj [(LAYER_KEY, JObj [(''decomposition'', encode_decomp (decomposition d)),
                             (''links'', JArr (map encode_edge (links d)))]),
           (L3, JObj [(''links'', JArr (map encode_story (use_cases d)))])]"

text \<open>
  A node belongs to partition \<open>p\<close> when \<open>p\<close> lists it. In a well-formed document the keys
  of the decomposition object are pairwise distinct (as in any JSON object that Python has
  parsed), every node belongs to exactly one partition, and a weight is non-negative.
\<close>

definition in_partition :: "document \<Rightarrow> string \<Rightarrow> string \<Rightarrow> bool" where
  "in_partition d n p \<longleftrightarrow> (\<exists>ns. (p, ns) \<in> set (decomposition d) \<and> n \<in> set ns)"

definition unique_partition :: "(string \<times> string list) list \<Rightarrow> bool" where
  "unique_partition dec \<longleftrightarrow>
     (\<forall>pn \<in> set dec. \<forall>qm \<in> set dec. \<forall>n \<in> set (snd pn). n \<in> set (snd qm) \<longrightarrow> fst pn = fst qm)"

definition well_formed :: "document \<Rightarrow> bool" where
  "well_formed d \<longleftrightarrow>
     distinct (map fst (decomposition d)) \<and>
     unique_partition (decomposition d) \<and>
     list_all (\<lambda>e. case weight e of None \<Rightarrow> True | Some w \<Rightarrow> 0 \<le> w) (links d)"

text \<open>A weight that \<^verbatim>\<open>float\<close> converts, and the documents whose weights are absent or
  numbers from 0 up to the float range.\<close>

definition in_float_range :: "edge \<Rightarrow> bool" where
  "in_float_range e \<longleftrightarrow> (case weight e of None \<Rightarrow> True | Some w \<Rightarrow> \<bar>w\<bar> < float_limit)"

definition float_weights :: "document \<Rightarrow> bool" where
  "float_weights d \<longleftrightarrow>
     list_all (\<lambda>e. case weight e of None \<Rightarrow> True | Some w \<Rightarrow> 0 \<le> w \<and> w < float_limit) (links d)"

text \<open>What the comprehension for the node-to-partition dict computes on a document of
  this shape, with node ids as keys.\<close>

fun add_nodes :: "string \<Rightarrow> string list \<Rightarrow> (string \<rightharpoonup> string) \<Rightarrow> (string \<rightharpoonup> string)" where
  "add_nodes p [] m = m"
| "add_nodes p (n # ns) m = add_nodes p ns (m(n \<mapsto> p))"

fun n2p_from :: "(string \<times> string list) list \<Rightarrow> (string \<rightharpoonup> string) \<Rightarrow> (string \<rightharpoonup> string)" where
  "n2p_from [] m = m"
| "n2p_from (pn # dec) m = n2p_from dec (add_nodes (fst pn) (snd pn) m)"

definition node2part_of :: "(string \<times> string list) list \<Rightarrow> (string \<rightharpoonup> string)" where
  "node2part_of dec = n2p_from dec Map.empty"

definition lift_key :: "(string \<rightharpoonup> string) \<Rightarrow> (py_key \<rightharpoonup> string)" where
  "lift_key m = (\<lambda>k. case k of KStr n \<Rightarrow> m n | _ \<Rightarrow> None)"

section \<open>Specification-level dispersion\<close>

text \<open>The spec's \<open>med = median(sizes)\<close>, \<open>MAD = median(|size_i - med|)\<close>.\<close>

definition median_of :: "real list \<Rightarrow> real" where
  "median_of xs =
     (let s = sort xs; n = length s in
      if odd n then s ! (n div 2) else (s ! (n div 2 - 1) + s ! (n div 2)) / 2)"

definition mad_of :: "real list \<Rightarrow> real" where
  "mad_of xs = median_of (map (\<lambda>x. \<bar>x - median_of xs\<bar>) xs)"

definition partition_sizes :: "document \<Rightarrow> real list" where
  "partition_sizes d = map (\<lambda>pn. real (length (snd pn))) (decomposition d)"

section \<open>Basic facts\<close>

lemma py_bind_simps [simp]:
  "py_bind (Inl e) f = Inl e"
  "py_bind (Inr x) f = f x"
  by (simp_all add: py_bind_def)

lemma float_limit_gt [simp]: "r \<le> 1000000 \<Longrightarrow> r < float_limit"
proof -
  have "(1000000::real) < 2 ^ 1024 - 2 ^ 970" by simp
  then show "r \<le> 1000000 \<Longrightarrow> r < float_limit" by (simp add: float_limit_def)
qed

lemma float_overflow: "py_float pf (JNum (2 ^ 1024)) = Inl OverflowError"
  by (simp add: float_limit_def)

lemma median_nonempty: "xs \<noteq> [] \<Longrightarrow> median xs = Inr (median_of xs)"
proof -
  assume "xs \<noteq> []"
  then have "sort xs \<noteq> []"
    by (metis length_0_conv length_sort)
  then show ?thesis
    by (simp add: median_def median_of_def Let_def odd_iff_mod_2_eq_one)
qed

lemma median_of_nonneg:
  assumes "xs \<noteq> []" "\<forall>x\<in>set xs. 0 \<le> x"
  shows "0 \<le> median_of xs"
proof -
  let ?s = "sort xs"
  have len: "length ?s = length xs" by simp
  have pos: "0 < length ?s" using assms(1) by simp
  have all: "\<And>i. i < length ?s \<Longrightarrow> 0 \<le> ?s ! i"
    using assms(2) by (metis nth_mem set_sort)
  have a: "length ?s div 2 < length ?s" using pos by simp
  have b: "length ?s div 2 - 1 < length ?s" using a by (rule less_imp_diff_less)
  show ?thesis
    unfolding median_of_def Let_def using all [OF a] all [OF b] by simp
qed

lemma mad_of_nonneg: "xs \<noteq> [] \<Longrightarrow> 0 \<le> mad_of xs"
  unfolding mad_of_def by (rule median_of_nonneg) auto

lemma median_abs_nonneg: "xs \<noteq> [] \<Longrightarrow> \<exists>m. median (map (\<lambda>x. \<bar>x - c\<bar>) xs) = Inr m \<and> 0 \<le> m"
  using median_nonempty [of "map (\<lambda>x. \<bar>x - c\<bar>) xs"]
    median_of_nonneg [of "map (\<lambda>x. \<bar>x - c\<bar>) xs"] by auto

text \<open>\<open>median_of\<close> is a median: at least half of the values are at most it, and at least
  half are at least it.\<close>

lemma length_filter_take:
  assumes "\<And>i. i < j \<Longrightarrow> P (s ! i)" and "j \<le> length s"
  shows "j \<le> length (filter P s)"
proof -
  have "\<forall>x \<in> set (take j s). P x"
    using assms by (auto simp: in_set_conv_nth)
  then have "length (filter P (take j s)) = j" using assms(2) by simp
  moreover have "length (filter P s) =
      length (filter P (take j s)) + length (filter P (drop j s))"
    by (metis append_take_drop_id filter_append length_append)
  ultimately show ?thesis by simp
qed

lemma length_filter_drop:
  assumes "\<And>i. j \<le> i \<Longrightarrow> i < length s \<Longrightarrow> P (s ! i)"
  shows "length s - j \<le> length (filter P s)"
proof -
  have "\<forall>x \<in> set (drop j s). P x"
    using assms by (auto simp: in_set_conv_nth)
  then have "length (filter P (drop j s)) = length s - j" by simp
  moreover have "length (filter P s) =
      length (filter P (take j s)) + length (filter P (drop j s))"
    by (metis append_take_drop_id filter_append length_append)
  ultimately show ?thesis by simp
qed

lemma length_filter_sort: "length (filter P (sort xs)) = length (filter P (xs :: real list))"
  by (simp add: filter_sort)

lemma median_of_is_median:
  assumes "xs \<noteq> []"
  shows "length xs \<le> 2 * length (filter (\<lambda>x. x \<le> median_of xs) xs)"
    and "length xs \<le> 2 * length (filter (\<lambda>x. median_of xs \<le> x) xs)"
proof -
  let ?s = "sort xs" and ?n = "length xs" and ?m = "median_of xs"
  have n: "length ?s = ?n" "0 < ?n" using assms by simp_all
  have srt: "sorted ?s" by simp
  have mono: "?s ! i \<le> ?s ! j" if "i \<le> j" "j < ?n" for i j
    using sorted_nth_mono [OF srt that(1)] that(2) n(1) by simp
  have lo: "?s ! ((?n - 1) div 2) \<le> ?m" and hi: "?m \<le> ?s ! (?n div 2)"
  proof -
    show "?s ! ((?n - 1) div 2) \<le> ?m"
    proof (cases "odd ?n")
      case True
      then have "(?n - 1) div 2 = ?n div 2" by presburger
      then show ?thesis using True by (simp add: median_of_def Let_def)
    next
      case False
      then have e: "(?n - 1) div 2 = ?n div 2 - 1" using n(2) by presburger
      have m: "?m = (?s ! (?n div 2 - 1) + ?s ! (?n div 2)) / 2"
        using False by (simp add: median_of_def Let_def)
      have "?s ! (?n div 2 - 1) \<le> ?s ! (?n div 2)" by (rule mono) (use n(2) in simp_all)
      then show ?thesis unfolding e m by simp
    qed
    show "?m \<le> ?s ! (?n div 2)"
    proof (cases "odd ?n")
      case True
      then show ?thesis by (simp add: median_of_def Let_def)
    next
      case False
      have m: "?m = (?s ! (?n div 2 - 1) + ?s ! (?n div 2)) / 2"
        using False by (simp add: median_of_def Let_def)
      have "?s ! (?n div 2 - 1) \<le> ?s ! (?n div 2)" by (rule mono) (use n(2) in simp_all)
      then show ?thesis unfolding m by simp
    qed
  qed
  have "(?n - 1) div 2 + 1 \<le> length (filter (\<lambda>x. x \<le> ?m) ?s)"
  proof (rule length_filter_take)
    fix i assume "i < (?n - 1) div 2 + 1"
    moreover have "(?n - 1) div 2 < ?n" using n(2) by presburger
    ultimately have "?s ! i \<le> ?s ! ((?n - 1) div 2)" by (intro mono) simp_all
    then show "?s ! i \<le> ?m" using lo by simp
  next
    have "(?n - 1) div 2 + 1 \<le> ?n" using n(2) by presburger
    then show "(?n - 1) div 2 + 1 \<le> length ?s" by simp
  qed
  moreover have "?n \<le> 2 * ((?n - 1) div 2 + 1)" by presburger
  ultimately show "?n \<le> 2 * length (filter (\<lambda>x. x \<le> ?m) xs)"
    unfolding length_filter_sort by simp
  have "length ?s - ?n div 2 \<le> length (filter (\<lambda>x. ?m \<le> x) ?s)"
  proof (rule length_filter_drop)
    fix i assume "?n div 2 \<le> i" "i < length ?s"
    then have "?s ! (?n div 2) \<le> ?s ! i" by (intro mono) (use n(1) in simp_all)
    then show "?m \<le> ?s ! i" using hi by simp
  qed
  moreover have "?n \<le> 2 * (?n - ?n div 2)" by presburger
  ultimately show "?n \<le> 2 * length (filter (\<lambda>x. ?m \<le> x) xs)"
    unfolding length_filter_sort n(1) by simp
qed

section \<open>Size dispersion (SMAD)\<close>

lemma map_len_encode:
  "map_len (map (\<lambda>pn. JArr (map encode_node (snd pn))) dec) =
     Inr (map (\<lambda>pn. real (length (snd pn))) dec)"
  by (induction dec) auto

lemma analyze_try_encode:
  "analyze_try (Parsed (encode d)) =
     (if decomposition d = [] then Inr None else Inr (Some (partition_sizes d)))"
  by (simp add: analyze_try_def read_json_def encode_def encode_decomp_def py_values_def
      LAYER_KEY_def L3_def map_len_encode partition_sizes_def comp_def)

lemma py_min_Min: "xs \<noteq> [] \<Longrightarrow> py_min xs = Inr (Min (set xs))"
  using Min.set_eq_fold [of "hd xs" "tl xs"] by (cases xs) simp_all

lemma py_max_Max: "xs \<noteq> [] \<Longrightarrow> py_max xs = Inr (Max (set xs))"
  using Max.set_eq_fold [of "hd xs" "tl xs"] by (cases xs) simp_all

lemma mad_example: "mad_of [2, 4, 4, 10] = 1"
  by (simp add: mad_of_def median_of_def Let_def)

definition smad_doc :: document where
  "smad_doc = \<lparr>decomposition = [(''P1'', [''a'', ''b'']), (''P2'', [''c'', ''d'', ''e'', ''f'']),
      (''P3'', [''g'', ''h'', ''i'', ''j'']),
      (''P4'', [''k'', ''l'', ''m'', ''n'', ''o'', ''p'', ''q'', ''r'', ''s'', ''t''])],
     links = [], use_cases = []\<rparr>"

text \<open>
  Claim C5. For every well-formed document, \<open>analyze_file\<close> returns
  \<open>SMAD = 1 - MAD / (MAD + 7)\<close>, where MAD is the median absolute deviation of the node
  counts of all partitions of the decomposition (whether or not a partition has edges),
  and it returns \<^verbatim>\<open>None\<close> ("not available") exactly when the decomposition has no
  partition; for the sizes 2, 4, 4, 10 the result is 7/8 = 0.875.
\<close>

theorem analyze_file_smad:
  "analyze_file (Parsed (encode d)) =
     (if decomposition d = [] then Inr None
      else Inr (Some \<lparr>services = length (decomposition d),
                      MAD_raw = mad_of (partition_sizes d),
                      medSize = median_of (partition_sizes d),
                      min_size = Min (set (partition_sizes d)),
                      max_size = Max (set (partition_sizes d)),
                      SMAD = 1 - mad_of (partition_sizes d) / (mad_of (partition_sizes d) + 7)\<rparr>))
   \<and> (partition_sizes d = [2, 4, 4, 10] \<longrightarrow>
        map_sum id (map_option SMAD) (analyze_file (Parsed (encode d))) = Inr (Some (7 / 8)))"
proof -
  have gen: "analyze_file (Parsed (encode d)) =
     (if decomposition d = [] then Inr None
      else Inr (Some \<lparr>services = length (decomposition d),
                      MAD_raw = mad_of (partition_sizes d),
                      medSize = median_of (partition_sizes d),
                      min_size = Min (set (partition_sizes d)),
                      max_size = Max (set (partition_sizes d)),
                      SMAD = 1 - mad_of (partition_sizes d) / (mad_of (partition_sizes d) + 7)\<rparr>))"
  proof (cases "decomposition d = []")
    case True
    then show ?thesis by (simp add: analyze_file_def analyze_try_encode)
  next
    case False
    then have ne: "partition_sizes d \<noteq> []" by (simp add: partition_sizes_def)
    then have ne': "map (\<lambda>sz. \<bar>sz - median_of (partition_sizes d)\<bar>) (partition_sizes d) \<noteq> []"
      by simp
    have len: "length (partition_sizes d) = length (decomposition d)"
      by (simp add: partition_sizes_def)
    show ?thesis using False
      by (simp add: analyze_file_def analyze_try_encode median_nonempty [OF ne]
          median_nonempty [OF ne'] py_min_Min [OF ne] py_max_Max [OF ne] len
          smad_score_def mad_of_def)
  qed
  have "partition_sizes d = [2, 4, 4, 10] \<Longrightarrow> decomposition d \<noteq> []"
    by (auto simp: partition_sizes_def)
  then show ?thesis
    unfolding gen using mad_example by (auto simp del: One_nat_def)
qed

theorem analyze_file_smad_witness:
  "partition_sizes smad_doc = [2, 4, 4, 10] \<and>
   map_sum id (map_option SMAD) (analyze_file (Parsed (encode smad_doc))) = Inr (Some (7 / 8))"
proof -
  have h: "partition_sizes smad_doc = [2, 4, 4, 10]"
    by (simp add: partition_sizes_def smad_doc_def)
  from analyze_file_smad [of smad_doc] h show ?thesis by blast
qed

section \<open>Monotonicity of the two scores\<close>

text \<open>
  Claim C9. For MAD values \<open>m1 < m2\<close> (a MAD is a median of absolute values, hence
  non-negative), the SMAD score \<open>1 - m / (m + 7)\<close> and the DCCMD score
  \<open>1 - m / (m + 2)\<close> are strictly smaller at \<open>m2\<close> than at \<open>m1\<close>, and both scores
  are exactly 1 at MAD 0.
\<close>

theorem score_monotone:
  "0 \<le> m1 \<Longrightarrow> m1 < m2 \<Longrightarrow>
     smad_score m2 < smad_score m1 \<and> dccmd_score m2 < dccmd_score m1 \<and>
     smad_score 0 = 1 \<and> dccmd_score 0 = 1"
  by (simp add: smad_score_def dccmd_score_def field_simps)

theorem score_monotone_witness:
  "(0::real) \<le> 1 \<and> (1::real) < 3 \<and> smad_score 3 < smad_score 1 \<and> dccmd_score 3 < dccmd_score 1 \<and>
   smad_score 0 = 1 \<and> dccmd_score 0 = 1"
  using score_monotone [of 1 3] by simp

section \<open>Termination and depth bound of the search\<close>

definition edges :: "adjacency \<Rightarrow> (string \<times> string) set" where
  "edges adj = {(u, v). \<exists>nxts. map_of adj u = Some nxts \<and> v \<in> set nxts}"

definition reachable :: "adjacency \<Rightarrow> string \<Rightarrow> string set" where
  "reachable adj start = {v. (start, v) \<in> (edges adj)\<^sup>*}"

lemma for_loop_inv:
  assumes "I s" and "\<And>x r. x \<in> set xs \<Longrightarrow> I r \<Longrightarrow> \<exists>r'. body x r = Inr r' \<and> I r'"
  shows "\<exists>r. for_loop xs s body = Inr r \<and> I r"
  using assms
proof (induction xs arbitrary: s)
  case Nil
  then show ?case by simp
next
  case (Cons x xs)
  from Cons.prems obtain s' where s': "body x s = Inr s'" "I s'" by fastforce
  have "\<exists>r. for_loop xs s' body = Inr r \<and> I r"
    by (rule Cons.IH [OF s'(2)]) (use Cons.prems(2) in auto)
  then show ?case using s'(1) by simp
qed



lemma closed_reachable:
  assumes "start \<in> fst ` set adj" "targets adj \<subseteq> fst ` set adj"
  shows "reachable adj start \<subseteq> fst ` set adj"
proof
  fix v assume "v \<in> reachable adj start"
  then have "(start, v) \<in> (edges adj)\<^sup>*" by (simp add: reachable_def)
  then show "v \<in> fst ` set adj"
  proof (induction rule: rtrancl_induct)
    case base
    then show ?case using assms(1) .
  next
    case (step y z)
    then have "z \<in> targets adj" using map_of_targets by (auto simp: edges_def)
    then show ?case using assms(2) by blast
  qed
qed


text \<open>A chain of \<open>n\<close> hops: the services \<^verbatim>\<open>s\<close>, \<^verbatim>\<open>ss\<close>, \<^verbatim>\<open>sss\<close> and so on, \<open>n + 1\<close> of them,
  each with an edge to the next.\<close>

definition svc :: "nat \<Rightarrow> string" where
  "svc i = replicate (Suc i) CHR ''s''"

definition chain :: "nat \<Rightarrow> adjacency" where
  "chain n = map (\<lambda>i. (svc i, if i < n then [svc (Suc i)] else [])) [0..<Suc n]"

lemma svc_inj: "svc i = svc j \<longleftrightarrow> i = j"
proof
  assume "svc i = svc j"
  then have "length (svc i) = length (svc j)" by simp
  then show "i = j" by (simp add: svc_def)
qed simp

lemma map_of_keyed:
  "(\<And>i j. f i = f j \<Longrightarrow> i = j) \<Longrightarrow> i \<in> set xs \<Longrightarrow>
     map_of (map (\<lambda>i. (f i, g i)) xs) (f i) = Some (g i)"
  by (induction xs) auto

lemma map_of_chain:
  "i \<le> n \<Longrightarrow> map_of (chain n) (svc i) = Some (if i < n then [svc (Suc i)] else [])"
  unfolding chain_def by (rule map_of_keyed) (auto simp: svc_inj)

lemma chain_keys: "fst ` set (chain n) = svc ` {..n}"
  by (force simp: chain_def image_iff)

lemma chain_card: "card (fst ` set (chain n)) = Suc n"
proof -
  have "inj_on svc {..n}" by (simp add: inj_on_def svc_inj)
  then show ?thesis unfolding chain_keys by (simp add: card_image)
qed

lemma chain_closed: "reachable (chain n) (svc 0) \<subseteq> fst ` set (chain n)"
proof (rule closed_reachable)
  show "svc 0 \<in> fst ` set (chain n)" unfolding chain_keys by simp
  show "targets (chain n) \<subseteq> fst ` set (chain n)"
    unfolding chain_keys by (auto simp: targets_def chain_def split: if_splits)
qed

text \<open>On the chain the search needs one nested call for each service.\<close>

lemma dfs_chain:
  "i \<le> n \<Longrightarrow> dfs limit (chain n) (svc i) (svc ` {..i}) =
     (if n - i < limit then Inr (n - i) else Inl RecursionError)"
proof (induction limit arbitrary: i)
  case 0
  then show ?case unfolding dfs.simps [of 0 "chain n" "svc i" "svc ` {..i}"] by simp
next
  case (Suc l)
  note unfold = dfs.simps [of "Suc l" "chain n" "svc i" "svc ` {..i}"]
  show ?case
  proof (cases "i < n")
    case False
    then have "i = n" using Suc.prems by simp
    then show ?thesis unfolding unfold by (simp add: map_of_chain)
  next
    case True
    have new: "svc (Suc i) \<notin> svc ` {..i}" by (auto simp: svc_inj)
    have seen: "svc ` {..i} \<union> {svc (Suc i)} = svc ` {..Suc i}" by (auto simp: atMost_Suc)
    have IH: "dfs l (chain n) (svc (Suc i)) (svc ` {..Suc i}) =
        (if n - Suc i < l then Inr (n - Suc i) else Inl RecursionError)"
      by (rule Suc.IH) (use True in simp)
    have "dfs (Suc l) (chain n) (svc i) (svc ` {..i}) =
        (case dfs l (chain n) (svc (Suc i)) (svc ` {..i} \<union> {svc (Suc i)}) of
           Inl e \<Rightarrow> Inl e | Inr d \<Rightarrow> Inr (max 0 (1 + d)))"
      using True new Suc.prems unfolding unfold by (simp add: map_of_chain split: sum.splits)
    also have "\<dots> = (if n - i < Suc l then Inr (n - i) else Inl RecursionError)"
      unfolding seen IH using True by auto
    finally show ?thesis .
  qed
qed

lemma longest_path_chain:
  "longest_path limit (svc 0) (chain n) = (if n < limit then Inr n else Inl RecursionError)"
  using dfs_chain [of 0 n limit] by (simp add: longest_path_def)

text \<open>
  As claim C10 states it, the search returns a depth for every adjacency map in which the
  reachable services are keys. On the chain of 499 services (498 hops), a map of that
  kind, the search needs 499 nested calls; with room for 498, as CPython's default
  recursion limit leaves, it raises \<^verbatim>\<open>RecursionError\<close> and returns no depth.
\<close>

theorem long_chain_counterexample:
  "reachable (chain 498) (svc 0) \<subseteq> fst ` set (chain 498) \<and>
   card (fst ` set (chain 498)) = 499 \<and>
   longest_path 498 (svc 0) (chain 498) = Inl RecursionError \<and>
   longest_path 499 (svc 0) (chain 498) = Inr 498"
  using chain_closed [of 498] by (simp add: chain_card longest_path_chain)



section \<open>The node-to-partition dict of a well-formed document\<close>

lemma lift_key_upd: "(lift_key m)(KStr n \<mapsto> p) = lift_key (m(n \<mapsto> p))"
  by (auto simp: lift_key_def fun_eq_iff split: py_key.splits)

lemma lift_key_empty: "Map.empty = lift_key Map.empty"
  by (auto simp: lift_key_def fun_eq_iff split: py_key.splits)

lemma for_loop_map: "for_loop (map g xs) s body = for_loop xs s (\<lambda>x. body (g x))"
  by (induction xs arbitrary: s) (auto split: sum.splits)

lemma for_loop_pure:
  "(\<And>x r. x \<in> set xs \<Longrightarrow> body x r = Inr (g x r)) \<Longrightarrow> for_loop xs s body = Inr (fold g xs s)"
  by (induction xs arbitrary: s) auto

lemma node2part_nodes_encode:
  "node2part_nodes p (map encode_node ns) (lift_key m) = Inr (lift_key (add_nodes p ns m))"
proof (induction ns arbitrary: m)
  case Nil
  then show ?case by (simp add: node2part_nodes_def)
next
  case (Cons n ns)
  have "node2part_nodes p (map encode_node (n # ns)) (lift_key m) =
        node2part_nodes p (map encode_node ns) (lift_key (m(n \<mapsto> p)))"
    by (simp add: node2part_nodes_def encode_node_def lift_key_upd)
  also have "\<dots> = Inr (lift_key (add_nodes p ns (m(n \<mapsto> p))))"
    by (rule Cons.IH)
  finally show ?case by (simp only: add_nodes.simps)
qed

lemma node2part_items_encode:
  "for_loop (map (\<lambda>pn. (fst pn, JArr (map encode_node (snd pn)))) dec) (lift_key m)
     (\<lambda>pl m. py_bind (py_iter (snd pl)) (\<lambda>ns. node2part_nodes (fst pl) ns m)) =
   Inr (lift_key (n2p_from dec m))"
  by (induction dec arbitrary: m) (simp_all add: node2part_nodes_encode)

lemma node2part_encode:
  "node2part (encode_decomp dec) = Inr (lift_key (node2part_of dec))"
  unfolding node2part_def encode_decomp_def node2part_of_def
  using node2part_items_encode [of dec Map.empty] by (simp add: lift_key_empty [symmetric])

lemma dict_get_lift [simp]: "dict_get (lift_key m) (JStr s) = Inr (m s)"
  by (simp add: dict_get_def lift_key_def)

lemma add_nodes_apply: "add_nodes p ns m x = (if x \<in> set ns then Some p else m x)"
  by (induction ns arbitrary: m) auto

lemma n2p_from_Some:
  "n2p_from dec m x = Some p \<Longrightarrow> (\<exists>ns. (p, ns) \<in> set dec \<and> x \<in> set ns) \<or> m x = Some p"
proof (induction dec arbitrary: m)
  case Nil
  then show ?case by simp
next
  case (Cons pn dec)
  from Cons.prems have "n2p_from dec (add_nodes (fst pn) (snd pn) m) x = Some p" by simp
  from Cons.IH [OF this] show ?case
    by (cases pn) (auto simp: add_nodes_apply split: if_splits)
qed

lemma n2p_from_dom:
  "(\<exists>pn \<in> set dec. x \<in> set (snd pn)) \<or> m x \<noteq> None \<Longrightarrow> n2p_from dec m x \<noteq> None"
proof (induction dec arbitrary: m)
  case Nil
  then show ?case by simp
next
  case (Cons pn dec)
  have "(\<exists>qm \<in> set dec. x \<in> set (snd qm)) \<or> add_nodes (fst pn) (snd pn) m x \<noteq> None"
    using Cons.prems by (auto simp: add_nodes_apply)
  then have "n2p_from dec (add_nodes (fst pn) (snd pn) m) x \<noteq> None" by (rule Cons.IH)
  then show ?case by simp
qed

lemma node2part_of_iff:
  assumes "unique_partition (decomposition d)"
  shows "node2part_of (decomposition d) n = Some p \<longleftrightarrow> in_partition d n p"
proof
  assume "node2part_of (decomposition d) n = Some p"
  then show "in_partition d n p"
    unfolding node2part_of_def in_partition_def by (auto dest: n2p_from_Some)
next
  assume ip: "in_partition d n p"
  then obtain ns where ns: "(p, ns) \<in> set (decomposition d)" "n \<in> set ns"
    by (auto simp: in_partition_def)
  then have "node2part_of (decomposition d) n \<noteq> None"
    unfolding node2part_of_def by (intro n2p_from_dom) force
  then obtain q where q: "node2part_of (decomposition d) n = Some q" by blast
  then obtain ms where ms: "(q, ms) \<in> set (decomposition d)" "n \<in> set ms"
    unfolding node2part_of_def by (auto dest: n2p_from_Some)
  from assms ns ms have "p = q" unfolding unique_partition_def by force
  then show "node2part_of (decomposition d) n = Some p" using q by simp
qed

section \<open>The dependency sets built by the loop over the links\<close>

text \<open>The set that the dict holds under a key.\<close>

definition succs :: "adjacency \<Rightarrow> string \<Rightarrow> string set" where
  "succs adj p = (case map_of adj p of None \<Rightarrow> {} | Some vs \<Rightarrow> set vs)"

lemma map_of_update_values:
  "map_of (map (\<lambda>kv. if fst kv = s then (fst kv, f (snd kv)) else kv) adj) x =
     (if x = s then map_option f (map_of adj x) else map_of adj x)"
  by (induction adj) auto

lemma map_fst_update_values:
  "map fst (map (\<lambda>kv. if fst kv = s then (fst kv, f (snd kv)) else kv) adj) = map fst adj"
  by (induction adj) auto

lemma adj_add_ok:
  assumes "s \<in> fst ` set adj"
  shows "\<exists>adj'. adj_add adj s t = Inr adj' \<and> map fst adj' = map fst adj \<and>
           (\<forall>x. succs adj' x = (if x = s then insert t (succs adj x) else succs adj x))"
proof -
  from assms obtain vs where vs: "map_of adj s = Some vs"
    by (metis domD dom_map_of_conv_image_fst)
  let ?adj' = "map (\<lambda>kv. if fst kv = s then (fst kv, set_add (snd kv) t) else kv) adj"
  have "adj_add adj s t = Inr ?adj'" using vs by (simp add: adj_add_def)
  moreover have "map fst ?adj' = map fst adj" by (rule map_fst_update_values)
  moreover have "succs ?adj' x = (if x = s then insert t (succs adj x) else succs adj x)" for x
    using vs
    by (auto simp: succs_def map_of_update_values [where f = "\<lambda>vs. set_add vs t"] set_add_def
        split: option.splits)
  ultimately show ?thesis by blast
qed

lemma adj_has_ok:
  assumes "p \<in> fst ` set adj"
  shows "adj_has adj p q = Inr (q \<in> succs adj p)"
proof -
  from assms obtain vs where "map_of adj p = Some vs"
    by (metis domD dom_map_of_conv_image_fst)
  then show ?thesis by (simp add: adj_has_def succs_def)
qed

lemma succs_init [simp]: "succs (map (\<lambda>p. (p, [])) parts) x = {}"
  by (induction parts) (auto simp: succs_def)

lemma cid_edge_encode:
  "cid_edge (lift_key m) (encode_edge e) adj =
     (case (m (source e), m (target e)) of
        (Some ps, Some pd) \<Rightarrow> if ps = pd then Inr adj else adj_add adj ps pd
      | _ \<Rightarrow> Inr adj)"
  by (simp add: cid_edge_def encode_edge_def)

lemma cid_loop:
  assumes "ran m \<subseteq> fst ` set adj"
  shows "\<exists>adj'. for_loop (map encode_edge es) adj (cid_edge (lift_key m)) = Inr adj' \<and>
           map fst adj' = map fst adj \<and>
           (\<forall>x. succs adj' x = succs adj x \<union>
              {q. \<exists>e \<in> set es. m (source e) = Some x \<and> m (target e) = Some q \<and> x \<noteq> q})"
  using assms
proof (induction es arbitrary: adj)
  case Nil
  then show ?case by simp
next
  case (Cons e es)
  have "\<exists>a. cid_edge (lift_key m) (encode_edge e) adj = Inr a \<and> map fst a = map fst adj \<and>
          (\<forall>x. succs a x = succs adj x \<union>
              {q. m (source e) = Some x \<and> m (target e) = Some q \<and> x \<noteq> q})"
  proof (cases "m (source e)")
    case None
    then show ?thesis by (simp add: cid_edge_encode)
  next
    case (Some ps)
    note ps = this
    show ?thesis
    proof (cases "m (target e)")
      case None
      then show ?thesis using ps by (simp add: cid_edge_encode)
    next
      case (Some pd)
      show ?thesis
      proof (cases "ps = pd")
        case True
        then show ?thesis using ps Some by (auto simp: cid_edge_encode)
      next
        case False
        have "ps \<in> fst ` set adj" using ps Cons.prems by (auto simp: ran_def)
        from adj_add_ok [OF this, of pd] False ps Some show ?thesis
          by (auto simp: cid_edge_encode)
      qed
    qed
  qed
  then obtain a where a: "cid_edge (lift_key m) (encode_edge e) adj = Inr a"
    "map fst a = map fst adj"
    "\<And>x. succs a x = succs adj x \<union>
              {q. m (source e) = Some x \<and> m (target e) = Some q \<and> x \<noteq> q}" by blast
  have "ran m \<subseteq> fst ` set a" using Cons.prems a(2) by (metis set_map)
  from Cons.IH [OF this] obtain adj' where adj':
    "for_loop (map encode_edge es) a (cid_edge (lift_key m)) = Inr adj'"
    "map fst adj' = map fst a"
    "\<And>x. succs adj' x = succs a x \<union>
              {q. \<exists>e \<in> set es. m (source e) = Some x \<and> m (target e) = Some q \<and> x \<noteq> q}" by blast
  have "for_loop (map encode_edge (e # es)) adj (cid_edge (lift_key m)) = Inr adj'"
    using a(1) adj'(1) by simp
  moreover have "map fst adj' = map fst adj" using a(2) adj'(2) by simp
  moreover have "succs adj' x = succs adj x \<union>
      {q. \<exists>e' \<in> set (e # es). m (source e') = Some x \<and> m (target e') = Some q \<and> x \<noteq> q}" for x
    unfolding adj'(3) a(3) by auto
  ultimately show ?case by blast
qed

lemma fold_count:
  "fold (\<lambda>x c. if P x then c + 1 else c) xs (n::nat) = n + length (filter P xs)"
  by (induction xs arbitrary: n) auto

lemma count_cyclic_ok:
  assumes "\<forall>pq \<in> set pairs. fst pq \<in> fst ` set adj \<and> snd pq \<in> fst ` set adj"
  shows "count_cyclic adj pairs =
     Inr (length (filter (\<lambda>pq. snd pq \<in> succs adj (fst pq) \<and> fst pq \<in> succs adj (snd pq)) pairs))"
proof -
  have "count_cyclic adj pairs =
      Inr (fold (\<lambda>pq c. if snd pq \<in> succs adj (fst pq) \<and> fst pq \<in> succs adj (snd pq)
                        then c + 1 else c) pairs 0)"
    unfolding count_cyclic_def
    by (rule for_loop_pure) (use assms in \<open>auto simp: adj_has_ok\<close>)
  then show ?thesis by (simp add: fold_count)
qed

lemma set_combinations: "set (combinations xs) \<subseteq> set xs \<times> set xs"
  by (induction xs) auto

lemma count_combinations:
  assumes "distinct xs" and sym: "\<And>p q. S p q \<Longrightarrow> S q p"
  shows "length (filter (\<lambda>pq. S (fst pq) (snd pq)) (combinations xs)) =
         card {{p, q} | p q. p \<in> set xs \<and> q \<in> set xs \<and> p \<noteq> q \<and> S p q}"
  using assms(1)
proof (induction xs)
  case Nil
  then show ?case by simp
next
  case (Cons x xs)
  let ?A = "(\<lambda>q. {x, q}) ` {q \<in> set xs. S x q}"
  let ?B = "{{p, q} | p q. p \<in> set xs \<and> q \<in> set xs \<and> p \<noteq> q \<and> S p q}"
  let ?T = "{{p, q} | p q. p \<in> set (x # xs) \<and> q \<in> set (x # xs) \<and> p \<noteq> q \<and> S p q}"
  have x: "x \<notin> set xs" and dx: "distinct xs" using Cons.prems by auto
  have T: "?T = ?A \<union> ?B"
  proof (intro equalityI subsetI)
    fix s assume "s \<in> ?T"
    then obtain p q where pq: "s = {p, q}" "p \<in> set (x # xs)" "q \<in> set (x # xs)" "p \<noteq> q" "S p q"
      by blast
    consider "p = x" | "q = x" "p \<noteq> x" | "p \<noteq> x" "q \<noteq> x" by blast
    then show "s \<in> ?A \<union> ?B"
    proof cases
      case 1
      then have "q \<in> set xs" "S x q" using pq by auto
      then show ?thesis using pq(1) 1 by blast
    next
      case 2
      then have "p \<in> set xs" "S x p" using pq sym by auto
      moreover have "s = {x, p}" using pq(1) 2 by auto
      ultimately show ?thesis by blast
    next
      case 3
      then have "p \<in> set xs" "q \<in> set xs" using pq by auto
      then show ?thesis using pq by blast
    qed
  next
    fix s assume "s \<in> ?A \<union> ?B"
    then show "s \<in> ?T"
    proof
      assume "s \<in> ?A"
      then obtain q where "s = {x, q}" "q \<in> set xs" "S x q" by blast
      moreover have "x \<noteq> q" using x calculation by auto
      ultimately show ?thesis by auto
    next
      assume "s \<in> ?B"
      then show ?thesis by auto
    qed
  qed
  have finA: "finite ?A" by simp
  have "?B \<subseteq> (\<lambda>pq. {fst pq, snd pq}) ` (set xs \<times> set xs)" by force
  then have finB: "finite ?B" by (rule finite_subset) simp
  have disj: "?A \<inter> ?B = {}" using x by (auto simp: doubleton_eq_iff)
  have inj: "inj_on (\<lambda>q. {x, q}) {q \<in> set xs. S x q}"
    by (auto simp: inj_on_def doubleton_eq_iff)
  have "card ?A = card {q \<in> set xs. S x q}" by (rule card_image [OF inj])
  also have "\<dots> = length (filter (S x) xs)"
    using dx by (metis distinct_card distinct_filter set_filter)
  finally have cA: "card ?A = length (filter (S x) xs)" .
  have "length (filter (\<lambda>pq. S (fst pq) (snd pq)) (combinations (x # xs))) =
        length (filter (S x) xs) + length (filter (\<lambda>pq. S (fst pq) (snd pq)) (combinations xs))"
    by (simp add: filter_map comp_def)
  also have "\<dots> = card ?A + card ?B" using cA Cons.IH [OF dx] by simp
  also have "\<dots> = card (?A \<union> ?B)" using card_Un_disjoint [OF finA finB disj] by simp
  finally show ?case using T by simp
qed

section \<open>Cyclic independence (CiD)\<close>

text \<open>
  The specification's partition graph: partition \<open>p\<close> depends on \<open>q\<close> when some link leads
  from a node of \<open>p\<close> to a node of a different partition \<open>q\<close>; an unordered pair is cyclic
  when each depends on the other.
\<close>

definition partition_ids :: "document \<Rightarrow> string list" where
  "partition_ids d = map fst (decomposition d)"

definition depends :: "document \<Rightarrow> string \<Rightarrow> string \<Rightarrow> bool" where
  "depends d p q \<longleftrightarrow>
     p \<noteq> q \<and> (\<exists>e \<in> set (links d). in_partition d (source e) p \<and> in_partition d (target e) q)"

definition cyclic_pair_set :: "document \<Rightarrow> string set set" where
  "cyclic_pair_set d = {{p, q} | p q. depends d p q \<and> depends d q p}"

definition cid_of :: "document \<Rightarrow> real" where
  "cid_of d =
     (let n = real (length (partition_ids d)) in
      if n \<le> 1 then 1 else 1 - real (card (cyclic_pair_set d)) / (n * (n - 1) / 2))"

lemma in_partition_id: "in_partition d n p \<Longrightarrow> p \<in> set (partition_ids d)"
  by (force simp: in_partition_def partition_ids_def)

lemma ran_node2part_of: "ran (node2part_of (decomposition d)) \<subseteq> set (partition_ids d)"
proof
  fix p assume "p \<in> ran (node2part_of (decomposition d))"
  then obtain n where "node2part_of (decomposition d) n = Some p" by (auto simp: ran_def)
  then have "\<exists>ns. (p, ns) \<in> set (decomposition d) \<and> n \<in> set ns"
    unfolding node2part_of_def by (auto dest: n2p_from_Some)
  then show "p \<in> set (partition_ids d)" by (force simp: partition_ids_def)
qed

lemma real_pairs: "real (n * (n - 1) div 2) = real n * (real n - 1) / 2"
proof (cases n)
  case 0
  then show ?thesis by simp
next
  case (Suc k)
  have "even (n * (n - 1))" using Suc by simp
  then have "real (n * (n - 1) div 2) = real (n * (n - 1)) / 2"
    by (simp add: real_of_nat_div)
  then show ?thesis using Suc by (simp add: algebra_simps)
qed

lemma cyclic_pair_set_small:
  assumes "distinct (partition_ids d)" "length (partition_ids d) \<le> 1"
  shows "cyclic_pair_set d = {}"
proof -
  have "p = q" if "p \<in> set (partition_ids d)" "q \<in> set (partition_ids d)" for p q
  proof -
    have "card (set (partition_ids d)) \<le> 1" using assms by (simp add: distinct_card)
    then show ?thesis using that by (metis card_le_Suc0_iff_eq List.finite_set One_nat_def)
  qed
  then show ?thesis
    unfolding cyclic_pair_set_def depends_def using in_partition_id by blast
qed

lemma cid_for_file_encode:
  assumes "well_formed d"
  shows "cid_for_file (Parsed (encode d)) =
     Inr (Some \<lparr>partitions = length (partition_ids d),
                cyclic_pairs = card (cyclic_pair_set d),
                total_pairs = length (partition_ids d) * (length (partition_ids d) - 1) div 2,
                CiD = cid_of d\<rparr>)"
proof -
  let ?dec = "decomposition d"
  let ?ids = "partition_ids d"
  let ?parts = "sort ?ids"
  let ?n = "length ?ids"
  let ?m = "node2part_of ?dec"
  have dist: "distinct ?ids" and uniq: "unique_partition ?dec"
    using assms by (simp_all add: well_formed_def partition_ids_def)
  have keys: "py_keys (encode_decomp ?dec) = Inr ?ids"
    by (simp add: py_keys_def encode_decomp_def partition_ids_def comp_def)
  have layer: "py_bind (read_json (Parsed (encode d))) (\<lambda>data. subscript data LAYER_KEY) =
      Inr (JObj [(''decomposition'', encode_decomp ?dec), (''links'', JArr (map encode_edge (links d)))])"
    by (simp add: read_json_def encode_def)
  show ?thesis
  proof (cases "?n \<le> 1")
    case True
    have "cyclic_pair_set d = {}" by (rule cyclic_pair_set_small [OF dist True])
    moreover have "cid_of d = 1" using True by (simp add: cid_of_def Let_def)
    ultimately show ?thesis using True
      unfolding cid_for_file_def layer by (simp add: keys Let_def)
  next
    case False
    let ?adj0 = "map (\<lambda>p. (p, [])) ?parts :: adjacency"
    have fst0: "fst ` set ?adj0 = set ?ids" by (force simp: image_iff)
    have "ran ?m \<subseteq> fst ` set ?adj0" unfolding fst0 by (rule ran_node2part_of)
    from cid_loop [OF this, of "links d"] obtain adj where
      "for_loop (map encode_edge (links d)) ?adj0 (cid_edge (lift_key ?m)) = Inr adj \<and>
       map fst adj = map fst ?adj0 \<and>
       (\<forall>x. succs adj x = succs ?adj0 x \<union>
          {q. \<exists>e \<in> set (links d). ?m (source e) = Some x \<and> ?m (target e) = Some q \<and> x \<noteq> q})" ..
    then have adj:
      "for_loop (map encode_edge (links d)) ?adj0 (cid_edge (lift_key ?m)) = Inr adj"
      "map fst adj = map fst ?adj0"
      "\<And>x. succs adj x = succs ?adj0 x \<union>
          {q. \<exists>e \<in> set (links d). ?m (source e) = Some x \<and> ?m (target e) = Some q \<and> x \<noteq> q}"
      by blast+
    have fst_adj: "fst ` set adj = set ?ids" using adj(2) fst0 by (metis set_map)
    have succs_dep: "q \<in> succs adj p \<longleftrightarrow> depends d p q" for p q
      unfolding adj(3) depends_def by (auto simp: node2part_of_iff [OF uniq])
    have pairs: "\<forall>pq \<in> set (combinations ?parts). fst pq \<in> fst ` set adj \<and> snd pq \<in> fst ` set adj"
      using set_combinations [of ?parts] fst_adj by auto
    let ?S = "\<lambda>p q. depends d p q \<and> depends d q p"
    have cnt: "count_cyclic adj (combinations ?parts) =
        Inr (length (filter (\<lambda>pq. ?S (fst pq) (snd pq)) (combinations ?parts)))"
      unfolding count_cyclic_ok [OF pairs] by (simp add: succs_dep)
    have "length (filter (\<lambda>pq. ?S (fst pq) (snd pq)) (combinations ?parts)) =
        card {{p, q} | p q. p \<in> set ?parts \<and> q \<in> set ?parts \<and> p \<noteq> q \<and> ?S p q}"
      by (rule count_combinations) (use dist in auto)
    also have "{{p, q} | p q. p \<in> set ?parts \<and> q \<in> set ?parts \<and> p \<noteq> q \<and> ?S p q} =
        cyclic_pair_set d"
      unfolding cyclic_pair_set_def depends_def using in_partition_id [of d] by auto
    finally have cnt': "count_cyclic adj (combinations ?parts) = Inr (card (cyclic_pair_set d))"
      using cnt by simp
    have n2: "2 \<le> ?n" using False by simp
    then have "2 * 1 \<le> ?n * (?n - 1)" by (intro mult_le_mono) auto
    then have tot: "0 < ?n * (?n - 1) div 2" by simp
    have rp: "real (?n * (?n - 1) div 2) = real ?n * (real ?n - 1) / 2" by (rule real_pairs)
    have "\<not> real ?n \<le> 1" using n2 by simp
    then have cid: "cid_of d = 1 - real (card (cyclic_pair_set d)) / real (?n * (?n - 1) div 2)"
      unfolding rp cid_of_def Let_def by (simp only: if_False)
    show ?thesis using False tot
      unfolding cid_for_file_def layer
      by (simp add: keys Let_def node2part_encode adj(1) cnt' cid)
  qed
qed


definition cid_doc :: document where
  "cid_doc = \<lparr>decomposition = [(''A'', [''a'']), (''B'', [''b'']), (''C'', [''c''])],
     links = [\<lparr>source = ''a'', target = ''b'', weight = None\<rparr>,
              \<lparr>source = ''b'', target = ''a'', weight = Some 2\<rparr>],
     use_cases = []\<rparr>"

lemmas encode_defs = encode_def encode_decomp_def encode_node_def encode_edge_def
  encode_story_def LAYER_KEY_def L3_def read_json_def

lemmas dict_defs = py_keys_def py_values_def node2part_def node2part_nodes_def dict_get_def
  adj_add_def adj_has_def set_add_def

text \<open>
  Claim C2. For every well-formed document, \<open>cid_for_file\<close> returns
  \<open>CiD = 1 - cyclic_pairs / (N * (N - 1) / 2)\<close>, where \<open>N\<close> is the number of partitions and
  \<open>cyclic_pairs\<close> is the number of unordered pairs of partitions \<open>{P, Q}\<close> with at least
  one cross-partition edge from \<open>P\<close> to \<open>Q\<close> and at least one from \<open>Q\<close> to \<open>P\<close> (weights
  and multiplicity play no role); for \<open>N \<le> 1\<close> it returns exactly 1; for three partitions
  with one cyclic pair it returns \<open>1 - 1/3\<close>.
\<close>

theorem cid_for_file_well_formed:
  assumes "well_formed d"
  shows "cid_for_file (Parsed (encode d)) =
     Inr (Some \<lparr>partitions = length (partition_ids d),
                cyclic_pairs = card (cyclic_pair_set d),
                total_pairs = length (partition_ids d) * (length (partition_ids d) - 1) div 2,
                CiD = cid_of d\<rparr>) \<and>
     cid_of d =
       (if length (partition_ids d) \<le> 1 then 1
        else 1 - real (card (cyclic_pair_set d)) /
               (real (length (partition_ids d)) * (real (length (partition_ids d)) - 1) / 2)) \<and>
     (length (partition_ids d) = 3 \<and> card (cyclic_pair_set d) = 1 \<longrightarrow> cid_of d = 1 - 1 / 3)"
proof -
  have "cid_of d =
       (if length (partition_ids d) \<le> 1 then 1
        else 1 - real (card (cyclic_pair_set d)) /
               (real (length (partition_ids d)) * (real (length (partition_ids d)) - 1) / 2))"
    by (simp add: cid_of_def Let_def)
  moreover have "cid_of d = 1 - 1 / 3"
    if "length (partition_ids d) = 3" "card (cyclic_pair_set d) = 1"
    using that by (simp add: cid_of_def Let_def)
  ultimately show ?thesis using cid_for_file_encode [OF assms] by blast
qed

theorem cid_for_file_well_formed_witness:
  "well_formed cid_doc \<and>
   cid_for_file (Parsed (encode cid_doc)) =
     Inr (Some \<lparr>partitions = 3, cyclic_pairs = 1, total_pairs = 3, CiD = 2 / 3\<rparr>) \<and>
   card (cyclic_pair_set cid_doc) = 1 \<and> cid_of cid_doc = 2 / 3"
proof -
  have wf: "well_formed cid_doc"
    by (simp add: well_formed_def unique_partition_def cid_doc_def)
  have ev: "cid_for_file (Parsed (encode cid_doc)) =
     Inr (Some \<lparr>partitions = 3, cyclic_pairs = 1, total_pairs = 3, CiD = 2 / 3\<rparr>)"
    by (simp add: cid_for_file_def cid_doc_def encode_defs dict_defs cid_edge_def
        count_cyclic_def Let_def)
  from cid_for_file_well_formed [OF wf]
  have "cid_for_file (Parsed (encode cid_doc)) =
     Inr (Some \<lparr>partitions = length (partition_ids cid_doc),
                cyclic_pairs = card (cyclic_pair_set cid_doc),
                total_pairs = length (partition_ids cid_doc) * (length (partition_ids cid_doc) - 1) div 2,
                CiD = cid_of cid_doc\<rparr>)" by (rule conjunct1)
  with ev have "card (cyclic_pair_set cid_doc) = 1" "cid_of cid_doc = 2 / 3" by simp_all
  with wf ev show ?thesis by (intro conjI)
qed

section \<open>Service coupling factor (SCF)\<close>

text \<open>
  A link is a cross-partition edge when its two endpoints belong to different partitions.
  \<open>cross_links\<close> are the link descriptors that are cross-partition edges, in document
  order; \<open>distinct_cross_edges\<close> is the set of node pairs they join.
\<close>

definition is_cross :: "document \<Rightarrow> edge \<Rightarrow> bool" where
  "is_cross d e \<longleftrightarrow>
     (\<exists>p q. in_partition d (source e) p \<and> in_partition d (target e) q \<and> p \<noteq> q)"

definition cross_links :: "document \<Rightarrow> edge list" where
  "cross_links d = filter (is_cross d) (links d)"

definition distinct_cross_edges :: "document \<Rightarrow> (string \<times> string) set" where
  "distinct_cross_edges d = (\<lambda>e. (source e, target e)) ` set (cross_links d)"

definition scf_of :: "nat \<Rightarrow> nat \<Rightarrow> real" where
  "scf_of s e = (if s + e = 0 then 0 else sqrt (real s / real (s + e)))"

lemma scf_edge_encode:
  "scf_edge (lift_key m) (encode_edge e) c =
     Inr (if truthy (m (source e)) \<and> truthy (m (target e)) \<and> m (source e) \<noteq> m (target e)
          then c + 1 else c)"
  by (simp add: scf_edge_def encode_edge_def)

lemma scf_loop:
  "for_loop (map encode_edge es) c (scf_edge (lift_key m)) =
     Inr (c + length (filter (\<lambda>e. truthy (m (source e)) \<and> truthy (m (target e)) \<and>
                                 m (source e) \<noteq> m (target e)) es))"
  by (induction es arbitrary: c) (simp_all add: scf_edge_encode)

lemma truthy_node2part:
  assumes "[] \<notin> set (partition_ids d)"
  shows "truthy (node2part_of (decomposition d) n) \<longleftrightarrow> node2part_of (decomposition d) n \<noteq> None"
proof (cases "node2part_of (decomposition d) n")
  case None
  then show ?thesis by simp
next
  case (Some p)
  then have "p \<in> ran (node2part_of (decomposition d))" by (auto simp: ran_def)
  then have "p \<in> set (partition_ids d)" using ran_node2part_of by blast
  then show ?thesis using assms Some by auto
qed

lemma is_cross_node2part:
  assumes "unique_partition (decomposition d)"
  shows "is_cross d e \<longleftrightarrow>
     (\<exists>p q. node2part_of (decomposition d) (source e) = Some p \<and>
            node2part_of (decomposition d) (target e) = Some q \<and> p \<noteq> q)"
  by (simp add: is_cross_def node2part_of_iff [OF assms])

lemma scf_for_file_encode:
  assumes "well_formed d" "[] \<notin> set (partition_ids d)"
  shows "scf_for_file (Parsed (encode d)) =
     Inr (Some \<lparr>svc_count = length (partition_ids d),
                external_edges = length (cross_links d),
                SCF = scf_of (length (partition_ids d)) (length (cross_links d))\<rparr>)"
proof -
  let ?dec = "decomposition d"
  let ?m = "node2part_of ?dec"
  have uniq: "unique_partition ?dec" using assms(1) by (simp add: well_formed_def)
  have keys: "py_keys (encode_decomp ?dec) = Inr (partition_ids d)"
    by (simp add: py_keys_def encode_decomp_def partition_ids_def comp_def)
  have layer: "py_bind (read_json (Parsed (encode d))) (\<lambda>data. subscript data LAYER_KEY) =
      Inr (JObj [(''decomposition'', encode_decomp ?dec), (''links'', JArr (map encode_edge (links d)))])"
    by (simp add: read_json_def encode_def)
  have pred: "(truthy (?m (source e)) \<and> truthy (?m (target e)) \<and> ?m (source e) \<noteq> ?m (target e))
      \<longleftrightarrow> is_cross d e" for e
    unfolding is_cross_node2part [OF uniq] truthy_node2part [OF assms(2)] by auto
  have loop: "for_loop (map encode_edge (links d)) 0 (scf_edge (lift_key ?m)) =
      Inr (length (cross_links d))"
    unfolding scf_loop cross_links_def by (simp add: pred)
  show ?thesis
    unfolding scf_for_file_def layer
    by (simp add: keys node2part_encode loop Let_def scf_of_def)
qed

lemma no_partition_no_cross: "partition_ids d = [] \<Longrightarrow> cross_links d = []"
  by (auto simp: cross_links_def is_cross_def in_partition_def partition_ids_def filter_empty_conv)

lemma scf_of_pos: "0 < s \<Longrightarrow> 0 < scf_of s e"
  by (simp add: scf_of_def)

lemma scf_of_zero_iff:
  "scf_of (length (partition_ids d)) (length (cross_links d)) = 0 \<longleftrightarrow>
     length (partition_ids d) + length (cross_links d) = 0"
proof (cases "partition_ids d = []")
  case True
  then show ?thesis using no_partition_no_cross [OF True] by (simp add: scf_of_def)
next
  case False
  then have "0 < length (partition_ids d)" by simp
  from scf_of_pos [OF this, of "length (cross_links d)"] False show ?thesis by simp
qed

definition dup_doc :: document where
  "dup_doc = \<lparr>decomposition = [(''A'', [''a'']), (''B'', [''b''])],
     links = [\<lparr>source = ''a'', target = ''b'', weight = None\<rparr>,
              \<lparr>source = ''a'', target = ''b'', weight = None\<rparr>],
     use_cases = []\<rparr>"

lemma dup_doc_wf: "well_formed dup_doc"
  by (simp add: well_formed_def unique_partition_def dup_doc_def)

lemma dup_doc_cross: "cross_links dup_doc = links dup_doc"
proof -
  have u: "unique_partition (decomposition dup_doc)"
    using dup_doc_wf by (simp add: well_formed_def)
  have "\<forall>e \<in> set (links dup_doc). is_cross dup_doc e"
    unfolding is_cross_node2part [OF u] by (simp add: dup_doc_def node2part_of_def)
  then show ?thesis unfolding cross_links_def by simp
qed

lemma dup_doc_distinct: "card (distinct_cross_edges dup_doc) = 1"
  unfolding distinct_cross_edges_def dup_doc_cross by (simp add: dup_doc_def)

text \<open>
  With \<open>E\<close> read as the number of distinct cross-partition edges, as claim C4 states it, the
  formula fails on a well-formed document that lists the same link twice: the script counts
  both descriptors.
\<close>

theorem scf_distinct_counterexample:
  "well_formed dup_doc \<and> length (partition_ids dup_doc) = 2 \<and>
   card (distinct_cross_edges dup_doc) = 1 \<and>
   scf_for_file (Parsed (encode dup_doc)) =
     Inr (Some \<lparr>svc_count = 2, external_edges = 2, SCF = sqrt (2 / 4)\<rparr>) \<and>
   sqrt (2 / 4) \<noteq> sqrt (real 2 / real (2 + card (distinct_cross_edges dup_doc)))"
proof -
  have "scf_for_file (Parsed (encode dup_doc)) =
     Inr (Some \<lparr>svc_count = 2, external_edges = 2, SCF = sqrt (2 / 4)\<rparr>)"
    by (simp add: scf_for_file_def dup_doc_def encode_defs dict_defs scf_edge_def Let_def)
  moreover have "length (partition_ids dup_doc) = 2" by (simp add: partition_ids_def dup_doc_def)
  ultimately show ?thesis using dup_doc_wf dup_doc_distinct by simp
qed


definition scf_doc :: document where
  "scf_doc = \<lparr>decomposition = [(''A'', [''a'']), (''B'', [''b'']), (''C'', [''c'']), (''D'', [''d''])],
     links = [\<lparr>source = ''a'', target = ''b'', weight = None\<rparr>,
              \<lparr>source = ''c'', target = ''d'', weight = Some 3\<rparr>,
              \<lparr>source = ''a'', target = ''a'', weight = None\<rparr>,
              \<lparr>source = ''a'', target = ''x'', weight = None\<rparr>],
     use_cases = []\<rparr>"

text \<open>
  Claim C4, as amended. For every well-formed document whose partition identifiers are
  non-empty, with \<open>S\<close> the number of partitions and \<open>E\<close> the number of link descriptors
  that lead from a node of one partition to a node of another (every descriptor counts
  once, whatever its weight, and a descriptor listed twice counts twice),
  \<open>scf_for_file\<close> computes \<open>SCF = sqrt (S / (S + E))\<close> when \<open>S + E > 0\<close> and \<open>0\<close> when
  \<open>S + E = 0\<close>, and \<open>SCF = 0\<close> holds exactly when \<open>S + E = 0\<close>.
\<close>

theorem scf_for_file_well_formed:
  assumes "well_formed d" and "[] \<notin> set (partition_ids d)"
  shows "scf_for_file (Parsed (encode d)) =
     Inr (Some \<lparr>svc_count = length (partition_ids d),
                external_edges = length (cross_links d),
                SCF = scf_of (length (partition_ids d)) (length (cross_links d))\<rparr>) \<and>
     scf_of (length (partition_ids d)) (length (cross_links d)) =
       (if length (partition_ids d) + length (cross_links d) = 0 then 0
        else sqrt (real (length (partition_ids d)) /
                   real (length (partition_ids d) + length (cross_links d)))) \<and>
     (scf_of (length (partition_ids d)) (length (cross_links d)) = 0 \<longleftrightarrow>
        length (partition_ids d) + length (cross_links d) = 0)"
proof (intro conjI)
  show "scf_for_file (Parsed (encode d)) =
     Inr (Some \<lparr>svc_count = length (partition_ids d),
                external_edges = length (cross_links d),
                SCF = scf_of (length (partition_ids d)) (length (cross_links d))\<rparr>)"
    by (rule scf_for_file_encode [OF assms])
  show "scf_of (length (partition_ids d)) (length (cross_links d)) =
       (if length (partition_ids d) + length (cross_links d) = 0 then 0
        else sqrt (real (length (partition_ids d)) /
                   real (length (partition_ids d) + length (cross_links d))))"
    by (simp only: scf_of_def)
  show "scf_of (length (partition_ids d)) (length (cross_links d)) = 0 \<longleftrightarrow>
        length (partition_ids d) + length (cross_links d) = 0"
    by (rule scf_of_zero_iff)
qed

theorem scf_for_file_well_formed_witness:
  "well_formed scf_doc \<and> [] \<notin> set (partition_ids scf_doc) \<and>
   scf_for_file (Parsed (encode scf_doc)) =
     Inr (Some \<lparr>svc_count = 4, external_edges = 2, SCF = sqrt (4 / 6)\<rparr>) \<and>
   length (cross_links scf_doc) = 2 \<and>
   scf_of (length (partition_ids scf_doc)) (length (cross_links scf_doc)) = sqrt (4 / 6)"
proof -
  have wf: "well_formed scf_doc"
    by (simp add: well_formed_def unique_partition_def scf_doc_def)
  have ne: "[] \<notin> set (partition_ids scf_doc)"
    by (simp add: partition_ids_def scf_doc_def)
  have ev: "scf_for_file (Parsed (encode scf_doc)) =
     Inr (Some \<lparr>svc_count = 4, external_edges = 2, SCF = sqrt (4 / 6)\<rparr>)"
    by (simp add: scf_for_file_def scf_doc_def encode_defs dict_defs scf_edge_def Let_def)
  from scf_for_file_well_formed [OF wf ne]
  have th: "scf_for_file (Parsed (encode scf_doc)) =
     Inr (Some \<lparr>svc_count = length (partition_ids scf_doc),
                external_edges = length (cross_links scf_doc),
                SCF = scf_of (length (partition_ids scf_doc)) (length (cross_links scf_doc))\<rparr>)"
    by (rule conjunct1)
  let ?r = "\<lparr>svc_count = length (partition_ids scf_doc),
                external_edges = length (cross_links scf_doc),
                SCF = scf_of (length (partition_ids scf_doc)) (length (cross_links scf_doc))\<rparr>"
  have r: "?r = \<lparr>svc_count = 4, external_edges = 2, SCF = sqrt (4 / 6)\<rparr>"
    using th ev by (simp only: sum.inject option.inject)
  have "external_edges ?r = 2" "SCF ?r = sqrt (4 / 6)"
    unfolding r by (simp_all only: scf_result.select_convs)
  then have "length (cross_links scf_doc) = 2"
    "scf_of (length (partition_ids scf_doc)) (length (cross_links scf_doc)) = sqrt (4 / 6)"
    by (simp_all only: scf_result.select_convs)
  with wf ne ev show ?thesis by (intro conjI)
qed

section \<open>Code modularity (CMod)\<close>

text \<open>
  The specification's per-partition aggregates: the number of internal edges, and the
  weight sums of the cross-partition edges that leave and enter a partition. An absent
  weight counts as 1.
\<close>

definition weight_of :: "edge \<Rightarrow> real" where
  "weight_of e = (case weight e of None \<Rightarrow> 1 | Some w \<Rightarrow> w)"

definition internal_count :: "document \<Rightarrow> string \<Rightarrow> nat" where
  "internal_count d p =
     length (filter (\<lambda>e. in_partition d (source e) p \<and> in_partition d (target e) p) (links d))"

definition outgoing_weight :: "document \<Rightarrow> string \<Rightarrow> real" where
  "outgoing_weight d p =
     sum_list (map weight_of
       (filter (\<lambda>e. in_partition d (source e) p \<and> (\<exists>q. q \<noteq> p \<and> in_partition d (target e) q))
          (links d)))"

definition incoming_weight :: "document \<Rightarrow> string \<Rightarrow> real" where
  "incoming_weight d p =
     sum_list (map weight_of
       (filter (\<lambda>e. in_partition d (target e) p \<and> (\<exists>q. q \<noteq> p \<and> in_partition d (source e) q))
          (links d)))"

definition external_weight :: "document \<Rightarrow> string \<Rightarrow> real" where
  "external_weight d p = outgoing_weight d p + incoming_weight d p"

definition CF :: "document \<Rightarrow> string \<Rightarrow> real" where
  "CF d p =
     (if 0 < external_weight d p
      then 2 * real (internal_count d p) / (2 * real (internal_count d p) + external_weight d p)
      else 1)"

definition qualifies :: "document \<Rightarrow> string \<Rightarrow> bool" where
  "qualifies d p \<longleftrightarrow> 0 < internal_count d p \<or> 0 < external_weight d p"

definition has_edge :: "document \<Rightarrow> string \<Rightarrow> bool" where
  "has_edge d p \<longleftrightarrow>
     (\<exists>e \<in> set (links d). \<exists>q.
        (in_partition d (source e) p \<and> in_partition d (target e) q) \<or>
        (in_partition d (source e) q \<and> in_partition d (target e) p))"

definition cmod_of :: "document \<Rightarrow> real option" where
  "cmod_of d =
     (let ps = filter (qualifies d) (partition_ids d) in
      if ps = [] then None else Some (sum_list (map (CF d) ps) / real (length ps)))"

text \<open>What one round of the loop over the links does to the three counters, for a link of
  a document of the expected shape.\<close>

definition cmod_step :: "(string \<rightharpoonup> string) \<Rightarrow> edge \<Rightarrow> cmod_state \<Rightarrow> cmod_state" where
  "cmod_step m e st =
     (case (m (source e), m (target e)) of
        (Some ps, Some pd) \<Rightarrow>
          if ps = pd then st\<lparr>internal := (internal st)(ps := internal st ps + 1)\<rparr>
          else st\<lparr>outgoing := (outgoing st)(ps := outgoing st ps + weight_of e),
                  incoming := (incoming st)(pd := incoming st pd + weight_of e)\<rparr>
      | _ \<Rightarrow> st)"

lemma cmod_edge_encode:
  "in_float_range e \<Longrightarrow>
     cmod_edge pf (lift_key m) (encode_edge e) st = Inr (cmod_step m e st)"
  by (simp add: cmod_edge_def cmod_step_def encode_edge_def weight_of_def in_float_range_def
      split: option.splits)

lemma cmod_loop:
  "\<forall>e \<in> set es. in_float_range e \<Longrightarrow>
     for_loop (map encode_edge es) st (cmod_edge pf (lift_key m)) = Inr (fold (cmod_step m) es st)"
  unfolding for_loop_map by (rule for_loop_pure) (simp add: cmod_edge_encode)

lemma float_weights_range: "float_weights d \<Longrightarrow> \<forall>e \<in> set (links d). in_float_range e"
  by (auto simp: float_weights_def in_float_range_def list_all_iff split: option.splits)

lemma float_weights_nonneg: "float_weights d \<Longrightarrow> e \<in> set (links d) \<Longrightarrow> 0 \<le> weight_of e"
  by (auto simp: float_weights_def weight_of_def list_all_iff split: option.splits)

lemma fold_cmod_internal:
  "internal (fold (cmod_step m) es st) p =
     internal st p + length (filter (\<lambda>e. m (source e) = Some p \<and> m (target e) = Some p) es)"
  by (induction es arbitrary: st) (auto simp: cmod_step_def split: option.splits)

lemma cmod_step_outgoing:
  "outgoing (cmod_step m e st) p =
     outgoing st p +
     (if m (source e) = Some p \<and> (\<exists>q. q \<noteq> p \<and> m (target e) = Some q) then weight_of e else 0)"
proof (cases "m (source e)")
  case None
  then show ?thesis by (simp add: cmod_step_def)
next
  case (Some ps)
  show ?thesis
  proof (cases "m (target e)")
    case None
    then show ?thesis using Some by (simp add: cmod_step_def)
  next
    case (Some pd)
    with \<open>m (source e) = Some ps\<close> show ?thesis
      by (cases "ps = pd") (auto simp: cmod_step_def)
  qed
qed

lemma cmod_step_incoming:
  "incoming (cmod_step m e st) p =
     incoming st p +
     (if m (target e) = Some p \<and> (\<exists>q. q \<noteq> p \<and> m (source e) = Some q) then weight_of e else 0)"
proof (cases "m (source e)")
  case None
  then show ?thesis by (simp add: cmod_step_def)
next
  case (Some ps)
  show ?thesis
  proof (cases "m (target e)")
    case None
    then show ?thesis using Some by (simp add: cmod_step_def)
  next
    case (Some pd)
    with \<open>m (source e) = Some ps\<close> show ?thesis
      by (cases "ps = pd") (auto simp: cmod_step_def)
  qed
qed

lemma fold_accumulate:
  fixes f :: "'s \<Rightarrow> 'a::monoid_add"
  assumes "\<And>e st. f (step e st) = f st + (if P e then w e else 0)"
  shows "f (fold step es st) = f st + sum_list (map w (filter P es))"
  by (induction es arbitrary: st) (simp_all add: assms add.assoc)

lemma fold_cmod_outgoing:
  "outgoing (fold (cmod_step m) es st) p =
     outgoing st p + sum_list (map weight_of
       (filter (\<lambda>e. m (source e) = Some p \<and> (\<exists>q. q \<noteq> p \<and> m (target e) = Some q)) es))"
  by (rule fold_accumulate) (rule cmod_step_outgoing)

lemma fold_cmod_incoming:
  "incoming (fold (cmod_step m) es st) p =
     incoming st p + sum_list (map weight_of
       (filter (\<lambda>e. m (target e) = Some p \<and> (\<exists>q. q \<noteq> p \<and> m (source e) = Some q)) es))"
  by (rule fold_accumulate) (rule cmod_step_incoming)

lemma weight_of_nonneg:
  assumes "well_formed d" "e \<in> set (links d)"
  shows "0 \<le> weight_of e"
  using assms by (auto simp: well_formed_def list_all_iff weight_of_def split: option.splits)

lemma outgoing_weight_nonneg: "well_formed d \<Longrightarrow> 0 \<le> outgoing_weight d p"
  unfolding outgoing_weight_def by (rule sum_list_nonneg) (auto dest: weight_of_nonneg)

lemma incoming_weight_nonneg: "well_formed d \<Longrightarrow> 0 \<le> incoming_weight d p"
  unfolding incoming_weight_def by (rule sum_list_nonneg) (auto dest: weight_of_nonneg)

lemma external_weight_nonneg: "well_formed d \<Longrightarrow> 0 \<le> external_weight d p"
  unfolding external_weight_def
  by (intro add_nonneg_nonneg outgoing_weight_nonneg incoming_weight_nonneg)

definition cmod_init :: cmod_state where
  "cmod_init = \<lparr>internal = (\<lambda>p. 0), outgoing = (\<lambda>p. 0), incoming = (\<lambda>p. 0)\<rparr>"

lemma cmod_final_state:
  assumes "unique_partition (decomposition d)"
  defines "st \<equiv> fold (cmod_step (node2part_of (decomposition d))) (links d) cmod_init"
  shows "internal st p = internal_count d p"
    and "outgoing st p = outgoing_weight d p"
    and "incoming st p = incoming_weight d p"
  unfolding st_def fold_cmod_internal fold_cmod_outgoing fold_cmod_incoming
    internal_count_def outgoing_weight_def incoming_weight_def
  by (simp_all add: cmod_init_def node2part_of_iff [OF assms(1)])

lemma cluster_factor_final:
  assumes "well_formed d"
  defines "st \<equiv> fold (cmod_step (node2part_of (decomposition d))) (links d) cmod_init"
  shows "cluster_factor st p = Inr (if qualifies d p then Some (CF d p) else None)"
proof -
  have u: "unique_partition (decomposition d)" using assms(1) by (simp add: well_formed_def)
  have i: "internal st p = internal_count d p"
    and e: "outgoing st p + incoming st p = external_weight d p"
    unfolding st_def external_weight_def by (simp_all add: cmod_final_state [OF u])
  have nn: "0 \<le> external_weight d p" by (rule external_weight_nonneg [OF assms(1)])
  show ?thesis
  proof (cases "external_weight d p = 0")
    case True
    then show ?thesis
      by (simp add: cluster_factor_def Let_def i e qualifies_def CF_def)
  next
    case False
    then have pos: "0 < external_weight d p" using nn by simp
    then have "2 * real (internal_count d p) + external_weight d p \<noteq> 0"
      by (smt (verit) of_nat_0_le_iff)
    then show ?thesis using pos False
      by (simp add: cluster_factor_def Let_def i e qualifies_def CF_def)
  qed
qed

lemma cf_loop:
  assumes "\<And>p. p \<in> set ks \<Longrightarrow> cluster_factor st p = Inr (if Q p then Some (g p) else None)"
  shows "for_loop ks acc (\<lambda>p cf_vals.
           py_bind (cluster_factor st p) (\<lambda>cf.
           case cf of None \<Rightarrow> Inr cf_vals | Some c \<Rightarrow> Inr (cf_vals @ [c]))) =
         Inr (acc @ map g (filter Q ks))"
  using assms by (induction ks arbitrary: acc) simp_all

lemma cmod_for_file_encode:
  assumes "well_formed d" and "float_weights d"
  shows "cmod_for_file pf (Parsed (encode d)) = Inr (cmod_of d)"
proof -
  let ?dec = "decomposition d"
  let ?m = "node2part_of ?dec"
  let ?st = "fold (cmod_step ?m) (links d) cmod_init"
  have keys: "py_keys (encode_decomp ?dec) = Inr (partition_ids d)"
    by (simp add: py_keys_def encode_decomp_def partition_ids_def comp_def)
  have layer: "py_bind (read_json (Parsed (encode d))) (\<lambda>data. subscript data LAYER_KEY) =
      Inr (JObj [(''decomposition'', encode_decomp ?dec), (''links'', JArr (map encode_edge (links d)))])"
    by (simp add: read_json_def encode_def)
  have loop: "for_loop (map encode_edge (links d))
        \<lparr>internal = (\<lambda>p. 0), outgoing = (\<lambda>p. 0), incoming = (\<lambda>p. 0)\<rparr>
        (cmod_edge pf (lift_key ?m)) = Inr ?st"
    unfolding cmod_loop [OF float_weights_range [OF assms(2)]] cmod_init_def ..
  have cfs: "for_loop (partition_ids d) [] (\<lambda>p cf_vals.
           py_bind (cluster_factor ?st p) (\<lambda>cf.
           case cf of None \<Rightarrow> Inr cf_vals | Some c \<Rightarrow> Inr (cf_vals @ [c]))) =
         Inr ([] @ map (CF d) (filter (qualifies d) (partition_ids d)))"
    by (rule cf_loop) (rule cluster_factor_final [OF assms(1)])
  show ?thesis
    unfolding cmod_for_file_def layer
    by (simp add: keys node2part_encode loop cfs cmod_of_def Let_def)
qed

lemma sum_list_pos_member:
  fixes xs :: "real list"
  assumes "\<And>x. x \<in> set xs \<Longrightarrow> 0 \<le> x" "y \<in> set xs" "0 < y"
  shows "0 < sum_list xs"
proof -
  have "0 \<le> sum_list xs" by (rule sum_list_nonneg) (rule assms(1))
  moreover have "sum_list xs \<noteq> 0"
    using sum_list_nonneg_eq_0_iff [of xs] assms by force
  ultimately show ?thesis by simp
qed

lemma qualifies_has_edge: "qualifies d p \<Longrightarrow> has_edge d p"
proof -
  assume "qualifies d p"
  then consider "0 < internal_count d p" | "outgoing_weight d p \<noteq> 0" | "incoming_weight d p \<noteq> 0"
    unfolding qualifies_def external_weight_def by fastforce
  then show ?thesis
  proof cases
    case 1
    then have "filter (\<lambda>e. in_partition d (source e) p \<and> in_partition d (target e) p) (links d) \<noteq> []"
      by (auto simp: internal_count_def)
    then show ?thesis unfolding has_edge_def filter_empty_conv by blast
  next
    case 2
    then have "filter (\<lambda>e. in_partition d (source e) p \<and> (\<exists>q. q \<noteq> p \<and> in_partition d (target e) q))
                 (links d) \<noteq> []"
      by (auto simp: outgoing_weight_def)
    then show ?thesis unfolding has_edge_def filter_empty_conv by blast
  next
    case 3
    then have "filter (\<lambda>e. in_partition d (target e) p \<and> (\<exists>q. q \<noteq> p \<and> in_partition d (source e) q))
                 (links d) \<noteq> []"
      by (auto simp: incoming_weight_def)
    then show ?thesis unfolding has_edge_def filter_empty_conv by blast
  qed
qed

lemma has_edge_qualifies:
  assumes wf: "well_formed d" and pos: "\<forall>e \<in> set (links d). 0 < weight_of e" and he: "has_edge d p"
  shows "qualifies d p"
proof -
  from he obtain e q where e: "e \<in> set (links d)"
    and pq: "(in_partition d (source e) p \<and> in_partition d (target e) q) \<or>
             (in_partition d (source e) q \<and> in_partition d (target e) p)"
    unfolding has_edge_def by blast
  have w: "0 < weight_of e" using pos e by blast
  show ?thesis
  proof (cases "q = p")
    case True
    then have "e \<in> set (filter (\<lambda>e. in_partition d (source e) p \<and> in_partition d (target e) p) (links d))"
      using e pq by auto
    then have "0 < internal_count d p"
      unfolding internal_count_def by (metis length_pos_if_in_set)
    then show ?thesis by (simp add: qualifies_def)
  next
    case False
    from pq show ?thesis
    proof
      assume a: "in_partition d (source e) p \<and> in_partition d (target e) q"
      let ?xs = "map weight_of (filter (\<lambda>e. in_partition d (source e) p \<and>
              (\<exists>q. q \<noteq> p \<and> in_partition d (target e) q)) (links d))"
      have "weight_of e \<in> set ?xs" using a e False by auto
      moreover have "\<And>x. x \<in> set ?xs \<Longrightarrow> 0 \<le> x" using weight_of_nonneg [OF wf] by auto
      ultimately have "0 < sum_list ?xs" using w sum_list_pos_member by blast
      then have "0 < outgoing_weight d p" by (simp add: outgoing_weight_def)
      then show ?thesis
        using incoming_weight_nonneg [OF wf, of p] by (simp add: qualifies_def external_weight_def)
    next
      assume a: "in_partition d (source e) q \<and> in_partition d (target e) p"
      let ?xs = "map weight_of (filter (\<lambda>e. in_partition d (target e) p \<and>
              (\<exists>q. q \<noteq> p \<and> in_partition d (source e) q)) (links d))"
      have "weight_of e \<in> set ?xs" using a e False by auto
      moreover have "\<And>x. x \<in> set ?xs \<Longrightarrow> 0 \<le> x" using weight_of_nonneg [OF wf] by auto
      ultimately have "0 < sum_list ?xs" using w sum_list_pos_member by blast
      then have "0 < incoming_weight d p" by (simp add: incoming_weight_def)
      then show ?thesis
        using outgoing_weight_nonneg [OF wf, of p] by (simp add: qualifies_def external_weight_def)
    qed
  qed
qed

definition cmod_doc :: document where
  "cmod_doc = \<lparr>decomposition = [(''P'', [''p1'', ''p2'']), (''Q'', [''q1'']), (''R'', [''r1''])],
     links = [\<lparr>source = ''p1'', target = ''p2'', weight = None\<rparr>,
              \<lparr>source = ''p2'', target = ''p1'', weight = Some 5\<rparr>,
              \<lparr>source = ''p1'', target = ''q1'', weight = None\<rparr>,
              \<lparr>source = ''q1'', target = ''p2'', weight = Some 1\<rparr>],
     use_cases = []\<rparr>"

definition zero_doc :: document where
  "zero_doc = \<lparr>decomposition = [(''A'', [''a'']), (''B'', [''b''])],
     links = [\<lparr>source = ''a'', target = ''b'', weight = Some 0\<rparr>],
     use_cases = []\<rparr>"

text \<open>
  The mean as the docstring of \<open>cmod_for_file\<close> and claim C3 state it: over the partitions
  with at least one edge, internal or external.
\<close>

definition cmod_spec :: "document \<Rightarrow> real option" where
  "cmod_spec d =
     (let ps = filter (has_edge d) (partition_ids d) in
      if ps = [] then None else Some (sum_list (map (CF d) ps) / real (length ps)))"

text \<open>When every weight is positive, a partition has a positive external weight or an
  internal edge exactly when it has an edge, and the script computes the mean of the
  claim.\<close>

lemma cmod_positive_weights:
  assumes "well_formed d" and "float_weights d" and "\<forall>e \<in> set (links d). 0 < weight_of e"
  shows "cmod_for_file pf (Parsed (encode d)) = Inr (cmod_spec d)"
proof -
  have "qualifies d = has_edge d"
    using qualifies_has_edge has_edge_qualifies [OF assms(1,3)] by (intro ext) blast
  then have "cmod_of d = cmod_spec d" by (simp add: cmod_of_def cmod_spec_def)
  then show ?thesis using cmod_for_file_encode [OF assms(1,2)] by simp
qed

lemma cmod_doc_value: "cmod_for_file (\<lambda>s. None) (Parsed (encode cmod_doc)) = Inr (Some (1 / 3))"
  by (simp add: cmod_for_file_def cmod_doc_def encode_defs dict_defs cmod_edge_def
      cluster_factor_def Let_def)

lemma zero_doc_has_edge: "has_edge zero_doc ''A''" "has_edge zero_doc ''B''"
  unfolding has_edge_def in_partition_def by (force simp: zero_doc_def)+

lemma zero_doc_spec: "cmod_spec zero_doc \<noteq> None"
proof -
  have "''A'' \<in> set (filter (has_edge zero_doc) (partition_ids zero_doc))"
    using zero_doc_has_edge(1) by (simp add: partition_ids_def zero_doc_def)
  then have "filter (has_edge zero_doc) (partition_ids zero_doc) \<noteq> []" by force
  then show ?thesis by (simp add: cmod_spec_def Let_def)
qed

text \<open>
  Claim C3 (CMod is the mean of the cluster factors over the partitions that have at least
  one internal or external edge, and is "not available" only when no partition has one)
  fails on a well-formed document whose only link has weight 0: both partitions have an
  external edge, so that the mean of the claim exists, but \<open>cmod_for_file\<close> tests the
  weight sum \<^verbatim>\<open>ext_w == 0\<close> where its comment says "edgeless partition", ignores both
  partitions and returns \<^verbatim>\<open>None\<close>.
\<close>

theorem zero_weight_edge_ignored:
  "well_formed zero_doc \<and> float_weights zero_doc \<and>
   has_edge zero_doc ''A'' \<and> has_edge zero_doc ''B'' \<and> cmod_spec zero_doc \<noteq> None \<and>
   cmod_for_file (\<lambda>s. None) (Parsed (encode zero_doc)) = Inr None"
proof -
  have "well_formed zero_doc"
    by (simp add: well_formed_def unique_partition_def zero_doc_def)
  moreover have "float_weights zero_doc"
    by (simp add: float_weights_def zero_doc_def)
  moreover have "cmod_for_file (\<lambda>s. None) (Parsed (encode zero_doc)) = Inr None"
    by (simp add: cmod_for_file_def zero_doc_def encode_defs dict_defs cmod_edge_def
        cluster_factor_def Let_def)
  ultimately show ?thesis using zero_doc_has_edge zero_doc_spec by (intro conjI)
qed

section \<open>The default weight\<close>

text \<open>A document with two partitions and one link whose weight field holds \<open>w\<close>.\<close>

definition weight_doc :: "json \<Rightarrow> json" where
  "weight_doc w =
     JObj [(LAYER_KEY,
       JObj [(''decomposition'',
                JObj [(''A'', JArr [JObj [(''id'', JStr ''a'')]]),
                      (''B'', JArr [JObj [(''id'', JStr ''b'')]])]),
             (''links'',
                JArr [JObj [(''source'', JStr ''a''), (''target'', JStr ''b''), (''weight'', w)]])])]"

text \<open>The document in which every absent weight is written out as 1.0.\<close>

definition explicit_weight :: "edge \<Rightarrow> edge" where
  "explicit_weight e = (case weight e of None \<Rightarrow> e\<lparr>weight := Some 1\<rparr> | Some w \<Rightarrow> e)"

definition explicit_weights :: "document \<Rightarrow> document" where
  "explicit_weights d = d\<lparr>links := map explicit_weight (links d)\<rparr>"

text \<open>A partition with one internal edge whose only external edge has weight \<open>-2\<close>.\<close>

definition negative_doc :: document where
  "negative_doc = \<lparr>decomposition = [(''P'', [''p1'', ''p2'']), (''Q'', [''q1''])],
     links = [\<lparr>source = ''p1'', target = ''p2'', weight = None\<rparr>,
              \<lparr>source = ''p1'', target = ''q1'', weight = Some (- 2)\<rparr>],
     use_cases = []\<rparr>"

lemma py_get_snoc_other:
  "x \<noteq> k \<Longrightarrow> py_get (JObj (kvs @ [(k, v)])) x dflt = py_get (JObj kvs) x dflt"
  by (simp add: map_add_def split: option.splits)

lemma py_get_snoc_absent:
  "map_of kvs k = None \<Longrightarrow> py_get (JObj (kvs @ [(k, v)])) k dflt = Inr v"
  by (simp add: map_add_def)

lemma cmod_edge_absent_weight:
  assumes "map_of kvs ''weight'' = None"
  shows "cmod_edge pf n2p (JObj kvs) st = cmod_edge pf n2p (JObj (kvs @ [(''weight'', JNum 1)])) st"
proof -
  have s: "py_get (JObj (kvs @ [(''weight'', JNum 1)])) ''source'' JNull = py_get (JObj kvs) ''source'' JNull"
    by (rule py_get_snoc_other) simp
  have t: "py_get (JObj (kvs @ [(''weight'', JNum 1)])) ''target'' JNull = py_get (JObj kvs) ''target'' JNull"
    by (rule py_get_snoc_other) simp
  have w: "py_get (JObj (kvs @ [(''weight'', JNum 1)])) ''weight'' (JNum 1) = py_get (JObj kvs) ''weight'' (JNum 1)"
    using assms by (simp only: py_get_snoc_absent) simp
  show ?thesis unfolding cmod_edge_def s t w ..
qed

lemma cmod_edge_explicit:
  "cmod_edge pf n2p (encode_edge (explicit_weight e)) st = cmod_edge pf n2p (encode_edge e) st"
proof (cases "weight e")
  case None
  have "map_of [(''source'', JStr (source e)), (''target'', JStr (target e))] ''weight'' = None"
    by simp
  from cmod_edge_absent_weight [OF this, of pf n2p st] show ?thesis
    using None by (simp add: explicit_weight_def encode_edge_def)
next
  case (Some w)
  then show ?thesis by (simp add: explicit_weight_def)
qed

lemma cmod_for_file_explicit:
  "cmod_for_file pf (Parsed (encode (explicit_weights d))) = cmod_for_file pf (Parsed (encode d))"
proof -
  have loop: "for_loop (map (encode_edge \<circ> explicit_weight) (links d)) st (cmod_edge pf n2p) =
      for_loop (map encode_edge (links d)) st (cmod_edge pf n2p)" for st n2p
    unfolding for_loop_map by (rule for_loop_cong) (simp_all add: cmod_edge_explicit)
  show ?thesis
    by (simp add: cmod_for_file_def encode_def read_json_def explicit_weights_def loop)
qed

text \<open>No division by zero when no weight is negative.\<close>

lemma cluster_factor_returns:
  assumes "0 \<le> outgoing st p" and "0 \<le> incoming st p"
  shows "\<exists>c. cluster_factor st p = Inr c"
proof -
  have "2 * real (internal st p) + (outgoing st p + incoming st p) \<noteq> 0"
    if "outgoing st p + incoming st p \<noteq> 0"
    using that assms by (smt (verit) of_nat_0_le_iff)
  then show ?thesis by (auto simp: cluster_factor_def Let_def)
qed

lemma fold_cmod_nonneg:
  assumes "\<forall>e \<in> set es. 0 \<le> weight_of e"
  shows "0 \<le> outgoing (fold (cmod_step m) es cmod_init) p"
    and "0 \<le> incoming (fold (cmod_step m) es cmod_init) p"
  unfolding fold_cmod_outgoing fold_cmod_incoming using assms
  by (auto simp: cmod_init_def intro!: sum_list_nonneg)

lemma cf_loop_returns:
  assumes "\<And>p. \<exists>c. cluster_factor st p = Inr c"
  shows "\<exists>vs. for_loop ks acc (\<lambda>p cf_vals.
           py_bind (cluster_factor st p) (\<lambda>cf.
           case cf of None \<Rightarrow> Inr cf_vals | Some c \<Rightarrow> Inr (cf_vals @ [c]))) = Inr vs"
proof (induction ks arbitrary: acc)
  case Nil
  then show ?case by simp
next
  case (Cons k ks)
  from assms obtain c where c: "cluster_factor st k = Inr c" by blast
  show ?case using Cons.IH c by (cases c) simp_all
qed

lemma cmod_for_file_returns:
  assumes "float_weights d"
  shows "\<exists>r. cmod_for_file pf (Parsed (encode d)) = Inr r"
proof -
  let ?dec = "decomposition d"
  let ?m = "node2part_of ?dec"
  let ?st = "fold (cmod_step ?m) (links d) cmod_init"
  have keys: "py_keys (encode_decomp ?dec) = Inr (partition_ids d)"
    by (simp add: py_keys_def encode_decomp_def partition_ids_def comp_def)
  have layer: "py_bind (read_json (Parsed (encode d))) (\<lambda>data. subscript data LAYER_KEY) =
      Inr (JObj [(''decomposition'', encode_decomp ?dec), (''links'', JArr (map encode_edge (links d)))])"
    by (simp add: read_json_def encode_def)
  have loop: "for_loop (map encode_edge (links d))
        \<lparr>internal = (\<lambda>p. 0), outgoing = (\<lambda>p. 0), incoming = (\<lambda>p. 0)\<rparr>
        (cmod_edge pf (lift_key ?m)) = Inr ?st"
    unfolding cmod_loop [OF float_weights_range [OF assms]] cmod_init_def ..
  have nn: "\<forall>e \<in> set (links d). 0 \<le> weight_of e"
    using float_weights_nonneg [OF assms] by blast
  have "\<exists>c. cluster_factor ?st p = Inr c" for p
    by (rule cluster_factor_returns) (rule fold_cmod_nonneg [OF nn])+
  from cf_loop_returns [of ?st "partition_ids d" "[]", OF this]
  obtain vs where vs: "for_loop (partition_ids d) [] (\<lambda>p cf_vals.
           py_bind (cluster_factor ?st p) (\<lambda>cf.
           case cf of None \<Rightarrow> Inr cf_vals | Some c \<Rightarrow> Inr (cf_vals @ [c]))) = Inr vs"
    by blast
  show ?thesis
    unfolding cmod_for_file_def layer
    by (simp add: keys node2part_encode loop vs)
qed

text \<open>Outside that range the document is not processed: a negative weight can make the
  divisor of a cluster factor zero, and an integer beyond the float range has no float.\<close>

lemma weight_out_of_range_raises:
  "cmod_for_file pf (Parsed (encode negative_doc)) = Inl ZeroDivisionError"
  "cmod_for_file pf (Parsed (weight_doc (JNum (2 ^ 1024)))) = Inl OverflowError"
  by (simp_all add: cmod_for_file_def negative_doc_def weight_doc_def encode_defs dict_defs
      cmod_edge_def cluster_factor_def float_limit_def Let_def)

definition ab_map :: "py_key \<rightharpoonup> string" where
  "ab_map = [KStr ''a'' \<mapsto> ''A'', KStr ''b'' \<mapsto> ''B'']"

text \<open>
  Claim C8, as amended. An edge descriptor without a weight field is treated by the
  modularity computation exactly like the same descriptor with weight 1.0, and the result
  for a document does not change when its absent weights are written out as 1.0. A
  document in which every weight is absent or a number \<open>w\<close> with
  \<open>0 \<le> w < 2 ^ 1024 - 2 ^ 970\<close> is processed: the computation returns and does not raise.
  A weight field that is present is converted with \<^verbatim>\<open>float\<close>; nothing is promised for a
  value that \<^verbatim>\<open>float\<close> rejects or for a negative weight.
\<close>

theorem absent_weight_is_one:
  "(map_of kvs ''weight'' = None \<longrightarrow>
      cmod_edge pf n2p (JObj kvs) st =
      cmod_edge pf n2p (JObj (kvs @ [(''weight'', JNum 1)])) st) \<and>
   cmod_for_file pf (Parsed (encode (explicit_weights d))) = cmod_for_file pf (Parsed (encode d)) \<and>
   (float_weights d \<longrightarrow> (\<exists>r. cmod_for_file pf (Parsed (encode d)) = Inr r))"
  using cmod_edge_absent_weight cmod_for_file_explicit cmod_for_file_returns by blast

theorem absent_weight_is_one_witness:
  "map_of [(''source'', JStr ''a''), (''target'', JStr ''b'')] ''weight'' = None \<and>
   map_sum id (\<lambda>st. (outgoing st ''A'', incoming st ''B''))
     (cmod_edge (\<lambda>s. None) ab_map (JObj [(''source'', JStr ''a''), (''target'', JStr ''b'')]) cmod_init)
     = Inr (1, 1) \<and>
   cmod_edge (\<lambda>s. None) ab_map (JObj [(''source'', JStr ''a''), (''target'', JStr ''b'')]) cmod_init =
   cmod_edge (\<lambda>s. None) ab_map
     (JObj ([(''source'', JStr ''a''), (''target'', JStr ''b'')] @ [(''weight'', JNum 1)])) cmod_init \<and>
   cmod_for_file (\<lambda>s. None) (Parsed (encode (explicit_weights cmod_doc))) = Inr (Some (1 / 3)) \<and>
   float_weights cmod_doc \<and>
   (\<exists>r. cmod_for_file (\<lambda>s. None) (Parsed (encode cmod_doc)) = Inr r)"
proof -
  have a: "map_of [(''source'', JStr ''a''), (''target'', JStr ''b'')] ''weight'' = None" by simp
  have fw: "float_weights cmod_doc"
    by (simp add: float_weights_def cmod_doc_def)
  have ev: "map_sum id (\<lambda>st. (outgoing st ''A'', incoming st ''B''))
     (cmod_edge (\<lambda>s. None) ab_map (JObj [(''source'', JStr ''a''), (''target'', JStr ''b'')]) cmod_init)
     = Inr (1, 1)"
    by (simp add: cmod_edge_def dict_get_def ab_map_def cmod_init_def)
  note th = absent_weight_is_one [of "[(''source'', JStr ''a''), (''target'', JStr ''b'')]"
      "\<lambda>s. None" ab_map cmod_init cmod_doc]
  from th a have e1: "cmod_edge (\<lambda>s. None) ab_map (JObj [(''source'', JStr ''a''), (''target'', JStr ''b'')]) cmod_init =
   cmod_edge (\<lambda>s. None) ab_map
     (JObj ([(''source'', JStr ''a''), (''target'', JStr ''b'')] @ [(''weight'', JNum 1)])) cmod_init"
    by blast
  from th have "cmod_for_file (\<lambda>s. None) (Parsed (encode (explicit_weights cmod_doc))) =
      cmod_for_file (\<lambda>s. None) (Parsed (encode cmod_doc))" by blast
  then have e2: "cmod_for_file (\<lambda>s. None) (Parsed (encode (explicit_weights cmod_doc))) =
      Inr (Some (1 / 3))" using cmod_doc_value by simp
  from th fw have e3: "\<exists>r. cmod_for_file (\<lambda>s. None) (Parsed (encode cmod_doc)) = Inr r" by blast
  show ?thesis using a ev e1 e2 fw e3 by (intro conjI)
qed

text \<open>
  A weight that is present but not a number is not replaced by 1.0: the conversion raises
  and the exception leaves \<open>cmod_for_file\<close>, for \<^verbatim>\<open>null\<close> as for a string that the parser
  rejects. With weight 1 the same document is processed.
\<close>

theorem unparseable_weight_counterexample:
  "cmod_for_file (\<lambda>s. None) (Parsed (weight_doc JNull)) = Inl TypeError \<and>
   cmod_for_file (\<lambda>s. None) (Parsed (weight_doc (JStr ''abc''))) = Inl ValueError \<and>
   cmod_for_file (\<lambda>s. None) (Parsed (weight_doc (JNum 1))) = Inr (Some 0)"
  by (simp add: cmod_for_file_def weight_doc_def LAYER_KEY_def read_json_def dict_defs
      cmod_edge_def cluster_factor_def Let_def)

section \<open>Agreement of the edge guards on non-empty partition keys\<close>

text \<open>
  On a link of a document of the expected shape the three loops decide as follows, in
  terms of the node-to-partition map \<open>m\<close>: cyclic independence and modularity take the
  link as a cross-partition edge exactly when both endpoints are known and their
  partitions differ; the coupling factor and the depth metric ask in addition that both
  partition keys are non-empty. When no partition key is empty the four guards agree.
\<close>

definition cross_by :: "(string \<rightharpoonup> string) \<Rightarrow> edge \<Rightarrow> (string \<times> string) option" where
  "cross_by m e =
     (case (m (source e), m (target e)) of
        (Some ps, Some pd) \<Rightarrow> if ps = pd then None else Some (ps, pd)
      | _ \<Rightarrow> None)"

lemma cid_edge_cross:
  "cid_edge (lift_key m) (encode_edge e) adj =
     (case cross_by m e of None \<Rightarrow> Inr adj | Some pq \<Rightarrow> adj_add adj (fst pq) (snd pq))"
  by (simp add: cid_edge_encode cross_by_def split: option.splits)

lemma cmod_step_cross:
  "cross_by m e = Some (ps, pd) \<Longrightarrow>
     cmod_step m e st = st\<lparr>outgoing := (outgoing st)(ps := outgoing st ps + weight_of e),
                           incoming := (incoming st)(pd := incoming st pd + weight_of e)\<rparr>"
  by (auto simp: cmod_step_def cross_by_def split: option.splits if_splits)

lemma cmod_step_not_cross:
  "cross_by m e = None \<Longrightarrow> outgoing (cmod_step m e st) = outgoing st \<and>
     incoming (cmod_step m e st) = incoming st"
  by (auto simp: cmod_step_def cross_by_def split: option.splits if_splits)

lemma scf_edge_cross:
  assumes "[] \<notin> ran m"
  shows "scf_edge (lift_key m) (encode_edge e) c =
     Inr (case cross_by m e of None \<Rightarrow> c | Some pq \<Rightarrow> c + 1)"
proof -
  have t: "truthy (m x) \<longleftrightarrow> m x \<noteq> None" for x
    using assms by (cases "m x") (auto simp: ran_def)
  show ?thesis
    by (auto simp: scf_edge_encode cross_by_def t split: option.splits)
qed

lemma dccmd_edge_cross:
  assumes "[] \<notin> ran m"
  shows "dccmd_edge (lift_key m) (encode_edge e) adj =
     (case cross_by m e of None \<Rightarrow> Inr adj | Some pq \<Rightarrow> adj_add adj (fst pq) (snd pq))"
proof -
  have t: "truthy (m x) \<longleftrightarrow> m x \<noteq> None" for x
    using assms by (cases "m x") (auto simp: ran_def)
  show ?thesis
    by (auto simp: dccmd_edge_def encode_edge_def cross_by_def t split: option.splits)
qed

lemma dccmd_edge_eq_cid_edge:
  "[] \<notin> ran m \<Longrightarrow>
     dccmd_edge (lift_key m) (encode_edge e) adj = cid_edge (lift_key m) (encode_edge e) adj"
  by (simp add: dccmd_edge_cross cid_edge_cross)

section \<open>The search computes the longest simple path\<close>

text \<open>
  A walk from \<open>u\<close> along the relation \<open>E\<close>, given by the services after \<open>u\<close>. A simple path
  visits no service twice; its length in hops is the number of services after the first.
\<close>

fun walk :: "(string \<Rightarrow> string \<Rightarrow> bool) \<Rightarrow> string \<Rightarrow> string list \<Rightarrow> bool" where
  "walk E u [] = True"
| "walk E u (v # vs) = (E u v \<and> walk E v vs)"

definition simple_paths :: "(string \<Rightarrow> string \<Rightarrow> bool) \<Rightarrow> string \<Rightarrow> string list set" where
  "simple_paths E u = {vs. walk E u vs \<and> distinct (u # vs)}"

definition longest_simple_path :: "(string \<Rightarrow> string \<Rightarrow> bool) \<Rightarrow> string \<Rightarrow> nat" where
  "longest_simple_path E u = Max (length ` simple_paths E u)"

text \<open>The paths that \<open>dfs adj node seen\<close> explores: they continue from \<open>node\<close> and avoid the
  services already seen.\<close>

definition paths_avoiding :: "adjacency \<Rightarrow> string \<Rightarrow> string set \<Rightarrow> string list set" where
  "paths_avoiding adj u seen =
     {vs. walk (\<lambda>x y. y \<in> succs adj x) u vs \<and> distinct vs \<and> set vs \<inter> seen = {}}"

definition is_longest :: "string list set \<Rightarrow> nat \<Rightarrow> bool" where
  "is_longest P d \<longleftrightarrow> (\<exists>vs \<in> P. length vs = d) \<and> (\<forall>vs \<in> P. length vs \<le> d)"

lemma paths_avoiding_Nil: "[] \<in> paths_avoiding adj u seen"
  by (simp add: paths_avoiding_def)

lemma paths_avoiding_Cons:
  "v # vs \<in> paths_avoiding adj u seen \<longleftrightarrow>
     v \<in> succs adj u \<and> v \<notin> seen \<and> vs \<in> paths_avoiding adj v (seen \<union> {v})"
  by (auto simp: paths_avoiding_def)

lemma is_longest_Max:
  assumes "is_longest P d"
  shows "Max (length ` P) = d"
proof (rule Max_eqI)
  have "length ` P \<subseteq> {..d}" using assms by (auto simp: is_longest_def)
  then show "finite (length ` P)" by (rule finite_subset) simp
  show "\<And>y. y \<in> length ` P \<Longrightarrow> y \<le> d" using assms by (auto simp: is_longest_def)
  show "d \<in> length ` P" using assms by (auto simp: is_longest_def)
qed

lemma dfs_loop_max:
  fixes adj :: adjacency and seen :: "string set" and l :: nat
  defines "body \<equiv> (\<lambda>nxt best.
            if nxt \<notin> seen
            then (case dfs l adj nxt (seen \<union> {nxt}) of
                    Inl e \<Rightarrow> Inl e
                  | Inr d \<Rightarrow> Inr (max best (1 + d)))
            else Inr best)"
  assumes "\<And>x. x \<in> set xs \<Longrightarrow> x \<notin> seen \<Longrightarrow>
     \<exists>d. dfs l adj x (seen \<union> {x}) = Inr d \<and> is_longest (paths_avoiding adj x (seen \<union> {x})) d"
  shows "\<exists>r. for_loop xs b body = Inr r \<and> b \<le> r \<and>
     (r = b \<or> (\<exists>x \<in> set xs. x \<notin> seen \<and>
                 (\<exists>vs \<in> paths_avoiding adj x (seen \<union> {x}). r = 1 + length vs))) \<and>
     (\<forall>x \<in> set xs. x \<notin> seen \<longrightarrow>
        (\<forall>vs \<in> paths_avoiding adj x (seen \<union> {x}). 1 + length vs \<le> r))"
  using assms(2)
proof (induction xs arbitrary: b)
  case Nil
  then show ?case by simp
next
  case (Cons x xs)
  have IH: "\<exists>r. for_loop xs c body = Inr r \<and> c \<le> r \<and>
     (r = c \<or> (\<exists>x \<in> set xs. x \<notin> seen \<and>
                 (\<exists>vs \<in> paths_avoiding adj x (seen \<union> {x}). r = 1 + length vs))) \<and>
     (\<forall>x \<in> set xs. x \<notin> seen \<longrightarrow>
        (\<forall>vs \<in> paths_avoiding adj x (seen \<union> {x}). 1 + length vs \<le> r))" for c
    by (rule Cons.IH) (use Cons.prems in auto)
  show ?case
  proof (cases "x \<in> seen")
    case True
    then have "for_loop (x # xs) b body = for_loop xs b body" by (simp add: body_def)
    with IH [of b] True show ?thesis by auto
  next
    case False
    from Cons.prems [of x] False obtain d where
      d: "dfs l adj x (seen \<union> {x}) = Inr d" "is_longest (paths_avoiding adj x (seen \<union> {x})) d"
      by auto
    from d(2) obtain ws where ws: "ws \<in> paths_avoiding adj x (seen \<union> {x})" "length ws = d"
      and bound: "\<And>vs. vs \<in> paths_avoiding adj x (seen \<union> {x}) \<Longrightarrow> length vs \<le> d"
      unfolding is_longest_def by blast
    let ?c = "max b (1 + d)"
    have step: "for_loop (x # xs) b body = for_loop xs ?c body"
      using False d(1) by (simp add: body_def)
    from IH [of ?c] obtain r where r: "for_loop xs ?c body = Inr r" "?c \<le> r"
      "r = ?c \<or> (\<exists>y \<in> set xs. y \<notin> seen \<and>
                 (\<exists>vs \<in> paths_avoiding adj y (seen \<union> {y}). r = 1 + length vs))"
      "\<forall>y \<in> set xs. y \<notin> seen \<longrightarrow>
        (\<forall>vs \<in> paths_avoiding adj y (seen \<union> {y}). 1 + length vs \<le> r)"
      by blast
    have 1: "for_loop (x # xs) b body = Inr r" using step r(1) by simp
    have 2: "b \<le> r" using r(2) by simp
    have 3: "r = b \<or> (\<exists>y \<in> set (x # xs). y \<notin> seen \<and>
                 (\<exists>vs \<in> paths_avoiding adj y (seen \<union> {y}). r = 1 + length vs))"
    proof -
      from r(3) show ?thesis
      proof
        assume eq: "r = ?c"
        show ?thesis
        proof (cases "b \<le> 1 + d")
          case True
          then have "r = 1 + length ws" using eq ws(2) by simp
          then show ?thesis using False ws(1) by auto
        next
          case False
          then show ?thesis using eq by simp
        qed
      next
        assume "\<exists>y \<in> set xs. y \<notin> seen \<and>
                 (\<exists>vs \<in> paths_avoiding adj y (seen \<union> {y}). r = 1 + length vs)"
        then show ?thesis by auto
      qed
    qed
    have 4: "\<forall>y \<in> set (x # xs). y \<notin> seen \<longrightarrow>
        (\<forall>vs \<in> paths_avoiding adj y (seen \<union> {y}). 1 + length vs \<le> r)"
    proof (intro ballI impI)
      fix y vs
      assume y: "y \<in> set (x # xs)" "y \<notin> seen" and vs: "vs \<in> paths_avoiding adj y (seen \<union> {y})"
      show "1 + length vs \<le> r"
      proof (cases "y = x")
        case True
        then have "length vs \<le> d" using bound vs by simp
        then show ?thesis using r(2) by simp
      next
        case False
        then show ?thesis using y vs r(4) by auto
      qed
    qed
    from 1 2 3 4 show ?thesis by blast
  qed
qed

lemma dfs_longest:
  assumes "targets adj \<subseteq> fst ` set adj" and "node \<in> fst ` set adj"
    and "card (targets adj - seen) < limit"
  shows "\<exists>d. dfs limit adj node seen = Inr d \<and> is_longest (paths_avoiding adj node seen) d"
  using assms
proof (induction limit adj node seen rule: dfs.induct)
  case (1 limit adj node seen)
  have ne: "limit \<noteq> 0" using "1.prems"(3) by simp
  from "1.prems"(2) obtain nxts where nxts: "map_of adj node = Some nxts"
    by (metis domD dom_map_of_conv_image_fst)
  have succ: "succs adj node = set nxts" using nxts by (simp add: succs_def)
  have keys: "x \<in> fst ` set adj" if "x \<in> set nxts" for x
    using map_of_targets [OF nxts] "1.prems"(1) that by blast
  have rec: "\<exists>d. dfs (limit - 1) adj x (seen \<union> {x}) = Inr d \<and>
      is_longest (paths_avoiding adj x (seen \<union> {x})) d" if "x \<in> set nxts" "x \<notin> seen" for x
  proof -
    have mem: "x \<in> targets adj - seen" using map_of_targets [OF nxts] that by blast
    have fin: "finite (targets adj - seen)" by (simp add: finite_targets)
    have eq: "targets adj - (seen \<union> {x}) = (targets adj - seen) - {x}" by blast
    have "card (targets adj - (seen \<union> {x})) < card (targets adj - seen)"
      unfolding eq by (rule card_Diff1_less [OF fin mem])
    then have less: "card (targets adj - (seen \<union> {x})) < limit - 1"
      using "1.prems"(3) by simp
    show ?thesis
      by (rule "1.IH" [OF ne nxts that "1.prems"(1) keys [OF that(1)] less])
  qed
  let ?body = "\<lambda>nxt best.
            if nxt \<notin> seen
            then (case dfs (limit - 1) adj nxt (seen \<union> {nxt}) of
                    Inl e \<Rightarrow> Inl e
                  | Inr d \<Rightarrow> Inr (max best (1 + d)))
            else Inr best"
  have "\<exists>r. for_loop nxts 0 ?body = Inr r \<and> 0 \<le> r \<and>
     (r = 0 \<or> (\<exists>x \<in> set nxts. x \<notin> seen \<and>
                 (\<exists>vs \<in> paths_avoiding adj x (seen \<union> {x}). r = 1 + length vs))) \<and>
     (\<forall>x \<in> set nxts. x \<notin> seen \<longrightarrow>
        (\<forall>vs \<in> paths_avoiding adj x (seen \<union> {x}). 1 + length vs \<le> r))"
    by (rule dfs_loop_max) (use rec in blast)
  then obtain r where r: "for_loop nxts 0 ?body = Inr r"
    "r = 0 \<or> (\<exists>x \<in> set nxts. x \<notin> seen \<and>
                 (\<exists>vs \<in> paths_avoiding adj x (seen \<union> {x}). r = 1 + length vs))"
    "\<forall>x \<in> set nxts. x \<notin> seen \<longrightarrow>
        (\<forall>vs \<in> paths_avoiding adj x (seen \<union> {x}). 1 + length vs \<le> r)"
    by blast
  have res: "dfs limit adj node seen = Inr r"
    using nxts r(1) ne unfolding dfs.simps [of limit adj node seen] by simp
  have ach: "\<exists>vs \<in> paths_avoiding adj node seen. length vs = r"
  proof -
    from r(2) show ?thesis
    proof
      assume "r = 0"
      then show ?thesis using paths_avoiding_Nil [of adj node seen] by auto
    next
      assume "\<exists>x \<in> set nxts. x \<notin> seen \<and>
                 (\<exists>vs \<in> paths_avoiding adj x (seen \<union> {x}). r = 1 + length vs)"
      then obtain x vs where "x \<in> set nxts" "x \<notin> seen"
        "vs \<in> paths_avoiding adj x (seen \<union> {x})" "r = 1 + length vs" by blast
      then have "x # vs \<in> paths_avoiding adj node seen" "length (x # vs) = r"
        by (simp_all add: paths_avoiding_Cons succ)
      then show ?thesis by blast
    qed
  qed
  have bnd: "\<forall>ws \<in> paths_avoiding adj node seen. length ws \<le> r"
  proof
    fix ws assume ws: "ws \<in> paths_avoiding adj node seen"
    show "length ws \<le> r"
    proof (cases ws)
      case Nil
      then show ?thesis by simp
    next
      case (Cons v vs)
      then have "v \<in> set nxts" "v \<notin> seen" "vs \<in> paths_avoiding adj v (seen \<union> {v})"
        using ws by (simp_all add: paths_avoiding_Cons succ)
      then have "1 + length vs \<le> r" using r(3) by blast
      then show ?thesis using Cons by simp
    qed
  qed
  from res ach bnd show ?case unfolding is_longest_def by blast
qed

lemma paths_avoiding_start:
  "paths_avoiding adj u {u} = simple_paths (\<lambda>x y. y \<in> succs adj x) u"
  by (auto simp: paths_avoiding_def simple_paths_def)

lemma longest_path_correct:
  assumes "targets adj \<subseteq> fst ` set adj" and "start \<in> fst ` set adj"
    and "card (fst ` set adj) \<le> limit"
  shows "longest_path limit start adj =
     Inr (longest_simple_path (\<lambda>x y. y \<in> succs adj x) start)"
proof -
  have "card (targets adj - {start}) \<le> card (fst ` set adj - {start})"
    by (rule card_mono) (use assms(1) in auto)
  also have "\<dots> < card (fst ` set adj)"
    by (rule card_Diff1_less) (use assms(2) in simp_all)
  finally have "card (targets adj - {start}) < limit" using assms(3) by simp
  from dfs_longest [OF assms(1,2) this] obtain d where
    d: "dfs limit adj start {start} = Inr d" "is_longest (paths_avoiding adj start {start}) d"
    by blast
  from is_longest_Max [OF d(2)] have "longest_simple_path (\<lambda>x y. y \<in> succs adj x) start = d"
    by (simp add: longest_simple_path_def paths_avoiding_start)
  then show ?thesis using d(1) by (simp add: longest_path_def)
qed

section \<open>The depths of the stories of a well-formed document\<close>

text \<open>
  The specification's depth metric. A use-case edge qualifies when the upper-cased label
  of its story contains \<^verbatim>\<open>USE CASE\<close>; the stories are the labels of the qualifying edges
  that touch a partition, in the order of their first appearance; a story touches the
  partitions of the targets of its edges; its depth is the largest length of a simple
  path in the partition graph that starts at a partition it touches.
\<close>

definition is_use_case :: "(string \<Rightarrow> string) \<Rightarrow> string \<Rightarrow> bool" where
  "is_use_case upper s \<longleftrightarrow> sublist ''USE CASE'' (upper s)"

definition touched :: "document \<Rightarrow> string \<Rightarrow> string set" where
  "touched d s = {p. \<exists>t. (s, t) \<in> set (use_cases d) \<and> in_partition d t p}"

definition story_labels :: "(string \<Rightarrow> string) \<Rightarrow> document \<Rightarrow> string list" where
  "story_labels upper d =
     map fst (filter (\<lambda>st. is_use_case upper (fst st) \<and> (\<exists>p. in_partition d (snd st) p))
       (use_cases d))"

definition stories :: "(string \<Rightarrow> string) \<Rightarrow> document \<Rightarrow> string list" where
  "stories upper d = fold (\<lambda>s acc. set_add acc s) (story_labels upper d) []"

definition depth_of :: "document \<Rightarrow> string \<Rightarrow> nat" where
  "depth_of d s = Max (longest_simple_path (depends d) ` touched d s)"

definition depths_of :: "(string \<Rightarrow> string) \<Rightarrow> document \<Rightarrow> nat list" where
  "depths_of upper d = map (depth_of d) (stories upper d)"

definition dccmd_of :: "(string \<Rightarrow> string) \<Rightarrow> document \<Rightarrow> real option" where
  "dccmd_of upper d =
     (if stories upper d = [] then None
      else Some (1 - mad_of (map real (depths_of upper d)) /
                     (mad_of (map real (depths_of upper d)) + 2)))"

lemma py_in_sublist: "py_in x s \<longleftrightarrow> sublist x s"
  by (induction s) (simp_all add: sublist_Cons_right)

text \<open>What one round of the loop over the business links does, for a use-case edge of a
  document of the expected shape.\<close>

definition story_step ::
  "(string \<Rightarrow> string) \<Rightarrow> (string \<rightharpoonup> string) \<Rightarrow> string \<times> string \<Rightarrow> adjacency \<Rightarrow> adjacency" where
  "story_step upper m st acc =
     (if is_use_case upper (fst st)
      then (case m (snd st) of
              Some sv \<Rightarrow> if sv \<noteq> [] then story_add acc (fst st) sv else acc
            | None \<Rightarrow> acc)
      else acc)"

lemma story_edge_encode:
  "story_edge upper (lift_key m) (encode_story st) acc = Inr (story_step upper m st acc)"
  by (simp add: story_edge_def encode_story_def story_step_def is_use_case_def py_in_sublist
      split: option.splits)

lemma story_loop:
  "for_loop (map encode_story ucs) acc (story_edge upper (lift_key m)) = Inr (fold (story_step upper m) ucs acc)"
  unfolding for_loop_map by (rule for_loop_pure) (rule story_edge_encode)

lemma map_of_None_keys: "map_of acc s = None \<longleftrightarrow> s \<notin> set (map fst acc)"
  by (simp add: map_of_eq_None_iff)

lemma story_add_keys: "map fst (story_add acc s sv) = set_add (map fst acc) s"
proof (cases "map_of acc s")
  case None
  then show ?thesis using map_of_None_keys [of acc s] by (simp add: story_add_def set_add_def)
next
  case (Some vs)
  then have "s \<in> set (map fst acc)" using map_of_None_keys [of acc s] by auto
  then show ?thesis using Some
    by (simp add: story_add_def set_add_def map_fst_update_values [where f = "\<lambda>vs. set_add vs sv"])
qed

lemma succs_append_new:
  "map_of acc s = None \<Longrightarrow>
     succs (acc @ [(s, vs)]) x = (if x = s then set vs else succs acc x)"
  by (auto simp: succs_def map_add_def split: option.splits)

lemma story_add_succs:
  "succs (story_add acc s sv) x = (if x = s then insert sv (succs acc x) else succs acc x)"
proof (cases "map_of acc s")
  case None
  then show ?thesis by (simp add: story_add_def succs_append_new) (simp add: succs_def)
next
  case (Some vs)
  then show ?thesis
    by (auto simp: story_add_def succs_def map_of_update_values [where f = "\<lambda>vs. set_add vs sv"]
        set_add_def split: option.splits)
qed

lemma set_add_distinct: "distinct xs \<Longrightarrow> distinct (set_add xs x)"
  by (simp add: set_add_def)

lemma fold_set_add_distinct: "distinct acc \<Longrightarrow> distinct (fold (\<lambda>s a. set_add a s) xs acc)"
  by (induction xs arbitrary: acc) (simp_all add: set_add_distinct)

definition story_qualifies ::
  "(string \<Rightarrow> string) \<Rightarrow> (string \<rightharpoonup> string) \<Rightarrow> string \<times> string \<Rightarrow> bool" where
  "story_qualifies upper m st \<longleftrightarrow>
     is_use_case upper (fst st) \<and> (\<exists>sv. m (snd st) = Some sv \<and> sv \<noteq> [])"

lemma story_step_qualifies:
  "story_qualifies upper m st \<Longrightarrow> story_step upper m st acc = story_add acc (fst st) (the (m (snd st)))"
  by (auto simp: story_qualifies_def story_step_def)

lemma story_step_not_qualifies: "\<not> story_qualifies upper m st \<Longrightarrow> story_step upper m st acc = acc"
  by (auto simp: story_qualifies_def story_step_def split: option.splits)

lemma story_fold_keys:
  "map fst (fold (story_step upper m) ucs acc) =
     fold (\<lambda>s a. set_add a s) (map fst (filter (story_qualifies upper m) ucs)) (map fst acc)"
proof (induction ucs arbitrary: acc)
  case Nil
  then show ?case by simp
next
  case (Cons st ucs)
  show ?case
  proof (cases "story_qualifies upper m st")
    case True
    then show ?thesis
      using Cons.IH [of "story_add acc (fst st) (the (m (snd st)))"]
      by (simp add: story_step_qualifies story_add_keys)
  next
    case False
    then show ?thesis using Cons.IH [of acc] by (simp add: story_step_not_qualifies)
  qed
qed

lemma story_fold_succs:
  "succs (fold (story_step upper m) ucs acc) s =
     succs acc s \<union> {the (m (snd st)) | st. st \<in> set ucs \<and> fst st = s \<and> story_qualifies upper m st}"
proof (induction ucs arbitrary: acc)
  case Nil
  then show ?case by simp
next
  case (Cons st ucs)
  let ?T = "\<lambda>xs. {the (m (snd x)) | x. x \<in> set xs \<and> fst x = s \<and> story_qualifies upper m x}"
  have T: "?T (st # ucs) =
      (if fst st = s \<and> story_qualifies upper m st then {the (m (snd st))} else {}) \<union> ?T ucs"
    by (cases st) auto
  show ?case
  proof (cases "story_qualifies upper m st")
    case True
    have "succs (fold (story_step upper m) (st # ucs) acc) s =
        succs (story_add acc (fst st) (the (m (snd st)))) s \<union> ?T ucs"
      using Cons.IH [of "story_add acc (fst st) (the (m (snd st)))"] True
      by (simp add: story_step_qualifies)
    also have "\<dots> = succs acc s \<union> ?T (st # ucs)"
      unfolding T story_add_succs using True by auto
    finally show ?thesis .
  next
    case False
    have "succs (fold (story_step upper m) (st # ucs) acc) s = succs acc s \<union> ?T ucs"
      using Cons.IH [of acc] False by (simp add: story_step_not_qualifies)
    also have "\<dots> = succs acc s \<union> ?T (st # ucs)"
      unfolding T using False by auto
    finally show ?thesis .
  qed
qed

lemma Max_insert_max:
  fixes a b :: nat
  assumes "finite A"
  shows "Max (insert (max a b) A) = max a (Max (insert b A))"
proof (cases "A = {}")
  case True
  then show ?thesis by simp
next
  case False
  then show ?thesis using assms by (simp add: max.assoc)
qed

lemma fold_max_Max:
  "fold (\<lambda>s b. max b (f s)) xs (b0::nat) = Max (insert b0 (f ` set xs))"
proof (induction xs arbitrary: b0)
  case Nil
  then show ?case by simp
next
  case (Cons x xs)
  have "fold (\<lambda>s b. max b (f s)) (x # xs) b0 = Max (insert (max b0 (f x)) (f ` set xs))"
    using Cons.IH [of "max b0 (f x)"] by simp
  also have "\<dots> = max b0 (Max (insert (f x) (f ` set xs)))"
    by (rule Max_insert_max) simp
  also have "\<dots> = Max (insert b0 (insert (f x) (f ` set xs)))"
    by simp
  finally show ?case by simp
qed

lemma story_depth_Max:
  assumes "targets adj \<subseteq> fst ` set adj" and "set svcs \<subseteq> fst ` set adj" and "svcs \<noteq> []"
    and "card (fst ` set adj) \<le> limit"
  shows "story_depth limit adj svcs =
     Inr (Max (longest_simple_path (\<lambda>x y. y \<in> succs adj x) ` set svcs))"
proof -
  let ?L = "longest_simple_path (\<lambda>x y. y \<in> succs adj x)"
  have "story_depth limit adj svcs = Inr (fold (\<lambda>s b. max b (?L s)) svcs 0)"
    unfolding story_depth_def
  proof (rule for_loop_pure)
    fix x r assume "x \<in> set svcs"
    then have "x \<in> fst ` set adj" using assms(2) by blast
    then show "py_bind (longest_path limit x adj) (\<lambda>d. Inr (max r d)) = Inr (max r (?L x))"
      by (simp add: longest_path_correct [OF assms(1) _ assms(4)])
  qed
  also have "fold (\<lambda>s b. max b (?L s)) svcs 0 = Max (insert 0 (?L ` set svcs))"
    by (rule fold_max_Max)
  also have "\<dots> = Max (?L ` set svcs)"
    using assms(3) by (simp add: max_def)
  finally show ?thesis .
qed

lemma for_loop_collect:
  assumes "\<And>x. x \<in> set xs \<Longrightarrow> f x = Inr (g x)"
  shows "for_loop xs acc (\<lambda>x ds. py_bind (f x) (\<lambda>b. Inr (ds @ [b]))) = Inr (acc @ map g xs)"
  using assms by (induction xs arbitrary: acc) simp_all

lemma succs_entry:
  "distinct (map fst acc) \<Longrightarrow> kv \<in> set acc \<Longrightarrow> succs acc (fst kv) = set (snd kv)"
  by (cases kv) (simp add: succs_def)

lemma targets_succs:
  assumes "distinct (map fst adj)"
  shows "targets adj = (\<Union>k \<in> fst ` set adj. succs adj k)"
  using succs_entry [OF assms] by (force simp: targets_def)

lemma set_fold_set_add: "set (fold (\<lambda>s a. set_add a s) xs acc) = set acc \<union> set xs"
  by (induction xs arbitrary: acc) (auto simp: set_add_def)

text \<open>The adjacency dict that \<open>depths_for_file\<close> builds is the partition graph.\<close>

lemma dccmd_adj:
  assumes "well_formed d" and "[] \<notin> set (partition_ids d)"
  shows "\<exists>adj. for_loop (map encode_edge (links d)) (map (\<lambda>s. (s, [])) (sort (partition_ids d)))
             (dccmd_edge (lift_key (node2part_of (decomposition d)))) = Inr adj \<and>
           map fst adj = sort (partition_ids d) \<and>
           (\<forall>p q. q \<in> succs adj p \<longleftrightarrow> depends d p q)"
proof -
  let ?m = "node2part_of (decomposition d)"
  let ?adj0 = "map (\<lambda>s. (s, [])) (sort (partition_ids d)) :: adjacency"
  have uniq: "unique_partition (decomposition d)" using assms(1) by (simp add: well_formed_def)
  have ne: "[] \<notin> ran ?m" using ran_node2part_of [of d] assms(2) by blast
  have fst0: "fst ` set ?adj0 = set (partition_ids d)" by (force simp: image_iff)
  have same: "for_loop (map encode_edge (links d)) ?adj0 (dccmd_edge (lift_key ?m)) =
      for_loop (map encode_edge (links d)) ?adj0 (cid_edge (lift_key ?m))"
    by (rule for_loop_cong) (auto simp: dccmd_edge_eq_cid_edge [OF ne])
  have "ran ?m \<subseteq> fst ` set ?adj0" unfolding fst0 by (rule ran_node2part_of)
  from cid_loop [OF this, of "links d"] obtain adj where
    "for_loop (map encode_edge (links d)) ?adj0 (cid_edge (lift_key ?m)) = Inr adj \<and>
     map fst adj = map fst ?adj0 \<and>
     (\<forall>x. succs adj x = succs ?adj0 x \<union>
        {q. \<exists>e \<in> set (links d). ?m (source e) = Some x \<and> ?m (target e) = Some q \<and> x \<noteq> q})" ..
  then have adj:
    "for_loop (map encode_edge (links d)) ?adj0 (cid_edge (lift_key ?m)) = Inr adj"
    "map fst adj = map fst ?adj0"
    "\<And>x. succs adj x = succs ?adj0 x \<union>
        {q. \<exists>e \<in> set (links d). ?m (source e) = Some x \<and> ?m (target e) = Some q \<and> x \<noteq> q}"
    by blast+
  have "q \<in> succs adj p \<longleftrightarrow> depends d p q" for p q
    unfolding adj(3) depends_def by (auto simp: node2part_of_iff [OF uniq])
  moreover have "map fst adj = sort (partition_ids d)" using adj(2) by (simp add: comp_def)
  ultimately show ?thesis using same adj(1) by auto
qed

lemma story_qualifies_iff:
  assumes "well_formed d" and "[] \<notin> set (partition_ids d)"
  shows "story_qualifies upper (node2part_of (decomposition d)) st \<longleftrightarrow>
     is_use_case upper (fst st) \<and> (\<exists>p. in_partition d (snd st) p)"
proof -
  have uniq: "unique_partition (decomposition d)" using assms(1) by (simp add: well_formed_def)
  have "p \<noteq> []" if "in_partition d n p" for n p
    using in_partition_id [OF that] assms(2) by auto
  then show ?thesis
    unfolding story_qualifies_def node2part_of_iff [OF uniq] by blast
qed

lemma story2svcs_keys:
  assumes "well_formed d" and "[] \<notin> set (partition_ids d)"
  shows "map fst (fold (story_step upper (node2part_of (decomposition d))) (use_cases d) []) = stories upper d"
proof -
  have "filter (story_qualifies upper (node2part_of (decomposition d))) (use_cases d) =
      filter (\<lambda>st. is_use_case upper (fst st) \<and> (\<exists>p. in_partition d (snd st) p)) (use_cases d)"
    by (rule filter_cong) (simp_all add: story_qualifies_iff [OF assms])
  then show ?thesis by (simp add: story_fold_keys stories_def story_labels_def)
qed

lemma story2svcs_succs:
  assumes "well_formed d" and "[] \<notin> set (partition_ids d)" and "is_use_case upper s"
  shows "succs (fold (story_step upper (node2part_of (decomposition d))) (use_cases d) []) s = touched d s"
proof -
  let ?m = "node2part_of (decomposition d)"
  have uniq: "unique_partition (decomposition d)" using assms(1) by (simp add: well_formed_def)
  have "{the (?m (snd st)) | st. st \<in> set (use_cases d) \<and> fst st = s \<and> story_qualifies upper ?m st} =
      touched d s"
  proof (intro equalityI subsetI)
    fix p assume "p \<in> {the (?m (snd st)) | st. st \<in> set (use_cases d) \<and> fst st = s \<and>
        story_qualifies upper ?m st}"
    then obtain st where st: "st \<in> set (use_cases d)" "fst st = s" "story_qualifies upper ?m st"
      "p = the (?m (snd st))" by blast
    from st(3) obtain sv where "?m (snd st) = Some sv" by (auto simp: story_qualifies_def)
    then have "?m (snd st) = Some p" using st(4) by simp
    then have "in_partition d (snd st) p" by (simp only: node2part_of_iff [OF uniq])
    moreover have "(s, snd st) \<in> set (use_cases d)" using st(1,2) by auto
    ultimately show "p \<in> touched d s" unfolding touched_def by blast
  next
    fix p assume "p \<in> touched d s"
    then obtain t where t: "(s, t) \<in> set (use_cases d)" "in_partition d t p"
      unfolding touched_def by blast
    then have "story_qualifies upper ?m (s, t)"
      using assms(3) by (auto simp: story_qualifies_iff [OF assms(1,2)])
    moreover have "the (?m t) = p" using t(2) by (simp add: node2part_of_iff [OF uniq, THEN iffD2])
    ultimately show "p \<in> {the (?m (snd st)) | st. st \<in> set (use_cases d) \<and> fst st = s \<and>
        story_qualifies upper ?m st}"
      using t(1) by force
  qed
  then show ?thesis by (simp add: story_fold_succs) (simp add: succs_def)
qed

lemma stories_facts:
  assumes "s \<in> set (stories upper d)"
  shows "is_use_case upper s" and "touched d s \<noteq> {}"
proof -
  from assms have "s \<in> set (story_labels upper d)" by (simp add: stories_def set_fold_set_add)
  then obtain t p where "(s, t) \<in> set (use_cases d)" "is_use_case upper s" "in_partition d t p"
    by (auto simp: story_labels_def)
  then show "is_use_case upper s" and "touched d s \<noteq> {}" by (auto simp: touched_def)
qed

lemma touched_partition: "touched d s \<subseteq> set (partition_ids d)"
  using in_partition_id by (auto simp: touched_def)

lemma depths_for_file_encode:
  assumes "well_formed d" and "[] \<notin> set (partition_ids d)"
    and "length (partition_ids d) \<le> limit"
  shows "depths_for_file upper limit (Parsed (encode d)) =
     Inr (if stories upper d = [] then None else Some (depths_of upper d), Some (length (partition_ids d)))"
proof -
  let ?dec = "decomposition d"
  let ?m = "node2part_of ?dec"
  let ?st = "fold (story_step upper ?m) (use_cases d) []"
  have dist: "distinct (partition_ids d)"
    using assms(1) by (simp add: well_formed_def partition_ids_def)
  have keys: "py_keys (encode_decomp ?dec) = Inr (partition_ids d)"
    by (simp add: py_keys_def encode_decomp_def partition_ids_def comp_def)
  have tr: "py_bind (read_json (Parsed (encode d))) (\<lambda>data.
           py_bind (subscript data LAYER_KEY) (\<lambda>struct.
           py_bind (subscript data L3) (\<lambda>bus. Inr (struct, bus)))) =
      Inr (JObj [(''decomposition'', encode_decomp ?dec), (''links'', JArr (map encode_edge (links d)))],
           JObj [(''links'', JArr (map encode_story (use_cases d)))])"
    by (simp add: read_json_def encode_def LAYER_KEY_def L3_def)
  from dccmd_adj [OF assms(1,2)] obtain adj where adj:
    "for_loop (map encode_edge (links d)) (map (\<lambda>s. (s, [])) (sort (partition_ids d)))
       (dccmd_edge (lift_key ?m)) = Inr adj"
    "map fst adj = sort (partition_ids d)"
    "\<And>p q. q \<in> succs adj p \<longleftrightarrow> depends d p q"
    by blast
  have fst_adj: "fst ` set adj = set (partition_ids d)" using adj(2) by (metis set_map set_sort)
  have dadj: "distinct (map fst adj)" using adj(2) dist by simp
  have "card (fst ` set adj) \<le> length (partition_ids d)"
    unfolding fst_adj by (rule card_length)
  then have room: "card (fst ` set adj) \<le> limit" using assms(3) by simp
  have closed: "targets adj \<subseteq> fst ` set adj"
    unfolding targets_succs [OF dadj] fst_adj
    using adj(3) in_partition_id [of d] by (auto simp: depends_def)
  have E: "(\<lambda>x y. y \<in> succs adj x) = depends d" using adj(3) by (intro ext) simp
  have stk: "map fst ?st = stories upper d" by (rule story2svcs_keys [OF assms(1,2)])
  have dst: "distinct (map fst ?st)"
    unfolding stk stories_def by (rule fold_set_add_distinct) simp
  have depth: "story_depth limit adj (snd kv) = Inr (depth_of d (fst kv))" if kv: "kv \<in> set ?st" for kv
  proof -
    have s: "fst kv \<in> set (stories upper d)" using kv stk by (metis image_eqI set_map)
    have "set (snd kv) = succs ?st (fst kv)" using succs_entry [OF dst kv] by simp
    also have "\<dots> = touched d (fst kv)"
      by (rule story2svcs_succs [OF assms(1,2) stories_facts(1) [OF s]])
    finally have tk: "set (snd kv) = touched d (fst kv)" .
    have ne: "snd kv \<noteq> []" using tk stories_facts(2) [OF s] by auto
    have sub: "set (snd kv) \<subseteq> fst ` set adj" unfolding tk fst_adj by (rule touched_partition)
    show ?thesis
      unfolding story_depth_Max [OF closed sub ne room] E tk depth_of_def ..
  qed
  have loop: "for_loop (map snd ?st) [] (\<lambda>svcs depths.
       py_bind (story_depth limit adj svcs) (\<lambda>best. Inr (depths @ [best]))) = Inr (depths_of upper d)"
  proof -
    have "for_loop ?st [] (\<lambda>kv depths.
       py_bind (story_depth limit adj (snd kv)) (\<lambda>best. Inr (depths @ [best]))) =
       Inr ([] @ map (\<lambda>kv. depth_of d (fst kv)) ?st)"
      by (rule for_loop_collect) (rule depth)
    also have "map (\<lambda>kv. depth_of d (fst kv)) ?st = map (depth_of d) (map fst ?st)"
      by (simp add: comp_def)
    finally show ?thesis unfolding for_loop_map depths_of_def stk by simp
  qed
  have empty: "?st = [] \<longleftrightarrow> stories upper d = []" using stk by (metis map_is_Nil_conv)
  show ?thesis
    unfolding depths_for_file_def tr
    by (simp add: keys node2part_encode adj(1) story_loop loop empty)
qed

lemma main_dccmd_encode:
  assumes "well_formed d" and "[] \<notin> set (partition_ids d)"
    and "length (partition_ids d) \<le> limit"
  shows "main_dccmd upper limit (Parsed (encode d)) = Inr (dccmd_of upper d)"
proof (cases "stories upper d = []")
  case True
  then show ?thesis
    by (simp add: main_dccmd_def depths_for_file_encode [OF assms] dccmd_of_def)
next
  case False
  then have ne: "depths_of upper d \<noteq> []" by (simp add: depths_of_def)
  then have ne1: "map real (depths_of upper d) \<noteq> []" by simp
  have ne2: "map (\<lambda>x. \<bar>x - median_of (map real (depths_of upper d))\<bar>) (map real (depths_of upper d)) \<noteq> []"
    using ne by simp
  have m2: "median (map (\<lambda>x. \<bar>real x - median_of (map real (depths_of upper d))\<bar>) (depths_of upper d)) =
      Inr (mad_of (map real (depths_of upper d)))"
    using median_nonempty [OF ne2] by (simp add: mad_of_def comp_def)
  show ?thesis using False ne
    by (simp add: main_dccmd_def depths_for_file_encode [OF assms] dccmd_of_def
        median_nonempty [OF ne1] m2 dccmd_score_def)
qed

section \<open>The chain of scenario 5\<close>

lemmas dccmd_defs = dccmd_edge_def story_edge_def story_add_def story_depth_def
  longest_path_def dfs.simps ascii_upper_def upper_char_def

definition chain_doc :: document where
  "chain_doc = \<lparr>decomposition = [(''A'', [''a'']), (''B'', [''b'']), (''C'', [''c''])],
     links = [\<lparr>source = ''a'', target = ''b'', weight = None\<rparr>,
              \<lparr>source = ''b'', target = ''c'', weight = None\<rparr>],
     use_cases = [(''Use Case 1'', ''a''), (''USE CASE 2'', ''c''), (''story 3'', ''b'')]\<rparr>"

lemma chain_depths:
  "depths_for_file ascii_upper 498 (Parsed (encode chain_doc)) = Inr (Some [2, 0], Some 3)"
  by (simp add: depths_for_file_def chain_doc_def encode_defs dict_defs dccmd_defs Let_def)

lemma chain_dccmd:
  "main_dccmd ascii_upper 498 (Parsed (encode chain_doc)) = Inr (Some (1 - 1 / 3))"
  by (simp add: main_dccmd_def chain_depths median_def dccmd_score_def Let_def)

section \<open>Documents that the scripts do not handle as the specification says\<close>

text \<open>A document whose first partition has the empty string as its key: node \<open>a\<close> is in
  that partition, node \<open>b\<close> in partition \<open>B\<close>, one link leads from \<open>a\<close> to \<open>b\<close>, and one
  use-case story touches \<open>a\<close>.\<close>

definition empty_key_doc :: document where
  "empty_key_doc = \<lparr>decomposition = [([], [''a'']), (''B'', [''b''])],
     links = [\<lparr>source = ''a'', target = ''b'', weight = None\<rparr>],
     use_cases = [(''USE CASE 1'', ''a'')]\<rparr>"

definition empty_key_map :: "py_key \<rightharpoonup> string" where
  "empty_key_map = [KStr ''a'' \<mapsto> [], KStr ''b'' \<mapsto> ''B'']"

lemma empty_key_doc_wf: "well_formed empty_key_doc"
  by (simp add: well_formed_def unique_partition_def empty_key_doc_def)

text \<open>
  Claim C6 (all three metrics interpret an edge identically) fails on this document:
  \<open>cid_edge\<close> and \<open>cmod_edge\<close> test \<^verbatim>\<open>is None\<close> and take the link as a cross-partition edge
  from the partition with the empty key to \<open>B\<close>, while \<open>scf_edge\<close> tests the truth value of
  the partition key and discards the link.
\<close>

theorem empty_key_edge_interpretation:
  "well_formed empty_key_doc \<and>
   node2part (encode_decomp (decomposition empty_key_doc)) = Inr empty_key_map \<and>
   cid_edge empty_key_map (encode_edge \<lparr>source = ''a'', target = ''b'', weight = None\<rparr>)
     [([], []), (''B'', [])] = Inr [([], [''B'']), (''B'', [])] \<and>
   map_sum id (\<lambda>st. (outgoing st [], incoming st ''B''))
     (cmod_edge (\<lambda>s. None) empty_key_map
        (encode_edge \<lparr>source = ''a'', target = ''b'', weight = None\<rparr>) cmod_init) = Inr (1, 1) \<and>
   scf_edge empty_key_map (encode_edge \<lparr>source = ''a'', target = ''b'', weight = None\<rparr>) 0 = Inr 0 \<and>
   cmod_for_file (\<lambda>s. None) (Parsed (encode empty_key_doc)) = Inr (Some 0) \<and>
   scf_for_file (Parsed (encode empty_key_doc)) =
     Inr (Some \<lparr>svc_count = 2, external_edges = 0, SCF = 1\<rparr>)"
proof (intro conjI)
  show "well_formed empty_key_doc" by (rule empty_key_doc_wf)
  show "node2part (encode_decomp (decomposition empty_key_doc)) = Inr empty_key_map"
    by (simp add: empty_key_doc_def encode_defs dict_defs empty_key_map_def)
  show "cid_edge empty_key_map (encode_edge \<lparr>source = ''a'', target = ''b'', weight = None\<rparr>)
     [([], []), (''B'', [])] = Inr [([], [''B'']), (''B'', [])]"
    by (simp add: cid_edge_def encode_edge_def dict_defs empty_key_map_def)
  show "map_sum id (\<lambda>st. (outgoing st [], incoming st ''B''))
     (cmod_edge (\<lambda>s. None) empty_key_map
        (encode_edge \<lparr>source = ''a'', target = ''b'', weight = None\<rparr>) cmod_init) = Inr (1, 1)"
    by (simp add: cmod_edge_def encode_edge_def dict_defs empty_key_map_def cmod_init_def)
  show "scf_edge empty_key_map (encode_edge \<lparr>source = ''a'', target = ''b'', weight = None\<rparr>) 0 = Inr 0"
    by (simp add: scf_edge_def encode_edge_def dict_defs empty_key_map_def)
  show "cmod_for_file (\<lambda>s. None) (Parsed (encode empty_key_doc)) = Inr (Some 0)"
    by (simp add: cmod_for_file_def empty_key_doc_def encode_defs dict_defs cmod_edge_def
        cluster_factor_def Let_def)
  show "scf_for_file (Parsed (encode empty_key_doc)) =
     Inr (Some \<lparr>svc_count = 2, external_edges = 0, SCF = 1\<rparr>)"
    by (simp add: scf_for_file_def empty_key_doc_def encode_defs dict_defs scf_edge_def Let_def)
qed

text \<open>
  Claim C1 fails on the same document: the story touches node \<open>a\<close> of the partition with
  the empty key, from which the path to \<open>B\<close> has one hop, so that the claim gives the
  story depth 1 and the metric the value 1; \<open>depths_for_file\<close> drops both the link and the
  story (the truth value of the empty string is false) and returns no depths, and \<open>main\<close>
  writes \<^verbatim>\<open>NA\<close>.
\<close>

theorem empty_key_depths:
  "well_formed empty_key_doc \<and>
   in_partition empty_key_doc ''a'' [] \<and> depends empty_key_doc [] ''B'' \<and>
   depths_for_file ascii_upper limit (Parsed (encode empty_key_doc)) = Inr (None, Some 2) \<and>
   main_dccmd ascii_upper limit (Parsed (encode empty_key_doc)) = Inr None"
proof -
  have d: "depths_for_file ascii_upper limit (Parsed (encode empty_key_doc)) = Inr (None, Some 2)"
    by (simp add: depths_for_file_def empty_key_doc_def encode_defs dict_defs dccmd_defs Let_def)
  have "in_partition empty_key_doc ''a'' []"
    by (simp add: in_partition_def empty_key_doc_def)
  moreover have "depends empty_key_doc [] ''B''"
    by (simp add: depends_def in_partition_def empty_key_doc_def)
  moreover have "main_dccmd ascii_upper limit (Parsed (encode empty_key_doc)) = Inr None"
    by (simp add: main_dccmd_def d)
  ultimately show ?thesis using empty_key_doc_wf d by (intro conjI)
qed

text \<open>A document whose only node descriptor has no \<^verbatim>\<open>id\<close>.\<close>

definition no_id_doc :: json where
  "no_id_doc =
     JObj [(LAYER_KEY, JObj [(''decomposition'', JObj [(''A'', JArr [JObj []])]), (''links'', JArr [])]),
           (L3, JObj [(''links'', JArr [])])]"

text \<open>
  Claim C7 (no document makes a per-file computation raise) fails. A file whose text is
  the JSON array \<^verbatim>\<open>[]\<close> raises \<^verbatim>\<open>TypeError\<close> at \<^verbatim>\<open>data[LAYER_KEY]\<close>; \<open>cid_for_file\<close> and
  \<open>depths_for_file\<close> catch only \<^verbatim>\<open>JSONDecodeError\<close> and \<^verbatim>\<open>KeyError\<close>, while the three other
  scripts also catch \<^verbatim>\<open>TypeError\<close> and return \<^verbatim>\<open>None\<close>. An unreadable file and a node
  descriptor without \<^verbatim>\<open>id\<close> raise in the scripts as well.
\<close>

theorem malformed_document_raises:
  "cid_for_file (Parsed (JArr [])) = Inl TypeError \<and>
   depths_for_file upper limit (Parsed (JArr [])) = Inl TypeError \<and>
   scf_for_file (Parsed (JArr [])) = Inr None \<and>
   cmod_for_file (\<lambda>s. None) (Parsed (JArr [])) = Inr None \<and>
   analyze_file (Parsed (JArr [])) = Inr None \<and>
   cid_for_file Unreadable = Inl OSError \<and>
   scf_for_file Unreadable = Inl OSError \<and>
   scf_for_file (Parsed no_id_doc) = Inl KeyError \<and>
   cmod_for_file (\<lambda>s. None) (Parsed no_id_doc) = Inl KeyError \<and>
   depths_for_file upper limit (Parsed no_id_doc) = Inl KeyError"
  by (simp add: cid_for_file_def depths_for_file_def scf_for_file_def cmod_for_file_def
      analyze_file_def analyze_try_def read_json_def LAYER_KEY_def L3_def no_id_doc_def
      dict_defs)

end
